theory Spec2Isabelle
  imports Main
begin

section \<open>Values, errors and strings\<close>

text \<open>
  The library is JavaScript.  Exceptions are values of \<open>error\<close>.  A function without
  effects returns \<open>Inl\<close> of the exception it throws; a function with effects returns the
  exception (if any) together with the state reached when it was thrown, since the
  mutations made before a throw persist.

  Strings are Isabelle strings read as UTF-8 text, so every string of the model is a
  well-formed JavaScript string (ill-formed UTF-16, a lone surrogate, has no representation).
  Objects used as dictionaries are association lists of their own enumerable properties in
  iteration order; inherited properties and accessor properties such as \<open>__proto__\<close> are not
  part of the model.
\<close>

datatype error = TypeError | URIError | NotFoundError | NoRequestObject

datatype jsval = Undefined | Null | Num int | Str string | Json string

text \<open>\<open>Json t\<close> is a structured value (object or array) whose \<open>JSON.stringify\<close> text is \<open>t\<close>.\<close>

type_synonym jsobject = "(string \<times> string) list"

text \<open>Reading \<open>arguments[i]\<close> of a call: a missing argument is \<open>undefined\<close>.\<close>

definition arg :: "nat \<Rightarrow> jsval list \<Rightarrow> jsval" where
  "arg i args = (if i < length args then args ! i else Undefined)"

subsection \<open>Built-ins of the host language\<close>

text \<open>
  \<open>encodeURIComponent\<close> and \<open>decodeURIComponent\<close> are built-ins of ECMAScript, used by the
  library but not part of it.  They are written out here after the language standard: every
  octet of the UTF-8 form is escaped as \<open>%XX\<close> (upper-case hexadecimal) except the unreserved
  characters, which are letters, digits and \<open>- _ . ! ~ * ' ( )\<close>; decoding accepts both cases
  of hexadecimal digits, and throws \<open>URIError\<close> at a truncated or non-hexadecimal escape and
  at escaped octets that are not well-formed UTF-8.
\<close>

definition unreserved :: "char \<Rightarrow> bool" where
  "unreserved c \<longleftrightarrow>
     c \<in> set ''ABCDEFGHIJKLMNOPQRSTUVWXYZabcdefghijklmnopqrstuvwxyz0123456789-_.!~*()''
     \<or> c = CHR 0x27"

definition hexdigit :: "nat \<Rightarrow> char" where
  "hexdigit n = ''0123456789ABCDEF'' ! n"

definition encode_octet :: "char \<Rightarrow> string" where
  "encode_octet c =
     [CHR ''%'', hexdigit (of_char c div 16), hexdigit (of_char c mod 16)]"

definition encodeURIComponent :: "string \<Rightarrow> string" where
  "encodeURIComponent s =
     concat (map (\<lambda>c. if unreserved c then [c] else encode_octet c) s)"









text \<open>
  \<open>String.prototype.substring(start, end)\<close>: both indices are clamped to the string and
  swapped when out of order.
\<close>

definition substring :: "string \<Rightarrow> int \<Rightarrow> int \<Rightarrow> string" where
  "substring s a b =
     (let n = int (length s);
          a' = max 0 (min a n);
          b' = max 0 (min b n)
      in take (nat (max a' b' - min a' b')) (drop (nat (min a' b')) s))"

text \<open>\<open>Array.prototype.splice(start, count)\<close> with a non-negative start, as a removal.\<close>

definition splice :: "nat \<Rightarrow> nat \<Rightarrow> 'a list \<Rightarrow> 'a list" where
  "splice start count xs = take start xs @ drop (start + count) xs"



text \<open>Decimal numerals, as string concatenation writes a non-negative integer.\<close>

fun decimal :: "nat \<Rightarrow> string" where
  "decimal n = (if n < 10 then [hexdigit n] else decimal (n div 10) @ [hexdigit (n mod 10)])"

declare decimal.simps [simp del]

definition decimal_int :: "int \<Rightarrow> string" where
  "decimal_int i = (if i < 0 then ''-'' @ decimal (nat (- i)) else decimal (nat i))"

text \<open>
  \<open>JSON.stringify\<close>, another built-in: a string is quoted with the standard's escapes;
  \<open>undefined\<close> has no JSON text and reaches the URL as the string \<open>undefined\<close>.
\<close>

definition json_escape :: "char \<Rightarrow> string" where
  "json_escape c =
     (if c = CHR 0x22 then [CHR 0x5C, CHR 0x22]
      else if c = CHR 0x5C then [CHR 0x5C, CHR 0x5C]
      else if c = CHR 0x08 then [CHR 0x5C, CHR ''b'']
      else if c = CHR 0x0C then [CHR 0x5C, CHR ''f'']
      else if c = CHR 0x0A then [CHR 0x5C, CHR ''n'']
      else if c = CHR 0x0D then [CHR 0x5C, CHR ''r'']
      else if c = CHR 0x09 then [CHR 0x5C, CHR ''t'']
      else if (of_char c :: nat) < 32 then
        [CHR 0x5C, CHR ''u'', CHR ''0'', CHR ''0'',
         ''0123456789abcdef'' ! (of_char c div 16), ''0123456789abcdef'' ! (of_char c mod 16)]
      else [c])"

fun JSON_stringify :: "jsval \<Rightarrow> string" where
  "JSON_stringify Undefined = ''undefined''"
| "JSON_stringify Null = ''null''"
| "JSON_stringify (Num n) = decimal_int n"
| "JSON_stringify (Str s) = [CHR 0x22] @ concat (map json_escape s) @ [CHR 0x22]"
| "JSON_stringify (Json t) = t"

subsection \<open>Calls and what they leave behind\<close>

text \<open>
  The third argument of both transports is a function, \<open>undefined\<close> (also when omitted),
  \<open>null\<close> or a number.  The completion and error arguments are functions or absent.
\<close>

datatype 'f timeout_arg = TFunction 'f | TUndefined | TNull | TNumber int

text \<open>
  What a run leaves in its trace: \<open>Invoked k kind args\<close>, the transport called the
  completion or the error callback of its \<open>k\<close>-th invocation; \<open>UserCalled f this args\<close>, the
  body of the caller's function \<open>f\<close> ran; \<open>HookCalled w h args\<close>, the overridable hook \<open>h\<close>
  of widget \<open>w\<close> ran.  Functions supplied by callers and hooks overridden by subclasses are
  opaque: they return normally and do not call back into the library.
\<close>

datatype cbkind = Completion | Failure

datatype hook = Init | Destroy | Onerror_hook

datatype event =
    Invoked nat cbkind "jsval list"
  | UserCalled nat "nat option" "jsval list"
  | HookCalled nat hook "jsval list"

text \<open>How often the transport has called a callback of invocation \<open>k\<close>.\<close>

definition invoked :: "nat \<Rightarrow> event list \<Rightarrow> nat" where
  "invoked k evs = length (filter (\<lambda>ev. case ev of Invoked j _ _ \<Rightarrow> j = k | _ \<Rightarrow> False) evs)"

section \<open>The earlier revision of the library: \<open>urlSerialize\<close>, \<open>urlUnserialize\<close>, \<open>post\<close>\<close>

text \<open>
  In that file the declarators of \<open>requestsIE\<close> and \<open>widgets\<close> are written with a colon
  inside a \<open>var\<close> statement; they are read here as the initialisers they stand for.

  \<open>urlSerialize\<close> walks the own properties of \<open>obj\<close>; \<open>fst\<close> is true until the first pair
  has been written.  A property value reaches \<open>encodeURIComponent\<close> as a string (a number
  is represented by the string the built-in converts it to).
\<close>

fun urlSerialize_loop :: "jsobject \<Rightarrow> bool \<Rightarrow> string \<Rightarrow> string" where
  "urlSerialize_loop [] fst0 ret = ret"
| "urlSerialize_loop ((k, v) # rest) fst0 ret =
     urlSerialize_loop rest False
       ((if fst0 then ret else ret @ ''&'')
        @ encodeURIComponent k @ ''='' @ encodeURIComponent v)"

definition urlSerialize :: "jsobject \<Rightarrow> string" where
  "urlSerialize obj = urlSerialize_loop obj True ''''"




subsection \<open>The same-origin transport \<open>post\<close>\<close>

text \<open>
  A request object: what the host reports of it (\<open>xhr_view\<close>) and what the library has
  done to it.  Reading \<open>status\<close> or \<open>statusText\<close> may throw, which is \<open>None\<close>: the code
  reads both inside \<open>try\<close>.  \<open>readyState\<close> and \<open>responseText\<close> can always be read, and
  \<open>open\<close>, \<open>setRequestHeader\<close> and \<open>send\<close> return normally.
\<close>

datatype handler = Unset | OnComplete nat | Noop

record xhr_view =
  readyState :: nat
  status :: "int option"
  statusText :: "string option"
  responseText :: string

record xhr = xhr_view +
  opened :: "(string \<times> string \<times> bool) option"
  requestHeaders :: "(string \<times> string) list"
  sent :: "string option"
  onreadystatechange :: handler

datatype params = PString string | PObject jsobject

text \<open>The variables one invocation of \<open>post\<close> shares with its \<open>onComplete\<close>.\<close>

record post_env =
  p_xhr :: "nat option"
  p_complete :: "nat option"
  p_error :: "nat option"
  p_xhrIdx :: "nat option"

text \<open>
  \<open>xhrSupport\<close>: one of the four constructors tried in turn yields a request object (if
  none does, the last, unguarded one throws).  \<open>requestsIE\<close> is an array or \<open>undefined\<close>,
  fixed when the library loads.
\<close>

record pstate =
  xhrs :: "xhr list"
  penvs :: "post_env list"
  requestsIE :: "nat list option"
  ptimers :: "(nat \<times> int) list"
  ptrace :: "event list"
  p_rpcToken :: string
  xhrSupport :: bool

definition new_xhr :: xhr where
  "new_xhr = \<lparr>readyState = 0, status = None, statusText = None, responseText = [],
              opened = None, requestHeaders = [], sent = None, onreadystatechange = Unset\<rparr>"

definition update_xhr :: "nat \<Rightarrow> (xhr \<Rightarrow> xhr) \<Rightarrow> pstate \<Rightarrow> pstate" where
  "update_xhr x f st = st\<lparr>xhrs := (xhrs st)[x := f (xhrs st ! x)]\<rparr>"

definition setRequestHeader :: "nat \<Rightarrow> string \<Rightarrow> string \<Rightarrow> pstate \<Rightarrow> pstate" where
  "setRequestHeader x name v st =
     update_xhr x (\<lambda>r. r\<lparr>requestHeaders := requestHeaders r @ [(name, v)]\<rparr>) st"

definition set_view :: "xhr_view \<Rightarrow> xhr \<Rightarrow> xhr" where
  "set_view v r = r\<lparr>readyState := readyState v, status := status v,
                    statusText := statusText v, responseText := responseText v\<rparr>"

text \<open>
  The argument shuffle and the default: a function in third place is the completion
  callback; a falsy timeout (\<open>undefined\<close>, \<open>null\<close>, \<open>0\<close>) becomes 10000.
\<close>

definition post_args ::
  "'f timeout_arg \<Rightarrow> 'f option \<Rightarrow> 'f option \<Rightarrow> int \<times> 'f option \<times> 'f option" where
  "post_args timeout complete error =
     (case timeout of
        TFunction f \<Rightarrow> (10000, Some f, complete)
      | TUndefined \<Rightarrow> (10000, complete, error)
      | TNull \<Rightarrow> (10000, complete, error)
      | TNumber n \<Rightarrow> (if n = 0 then 10000 else n, complete, error))"

text \<open>
  \<open>onComplete(_, aborted)\<close> of invocation \<open>k\<close>.  With \<open>xhr\<close> already cleared, both the
  read \<open>xhr.readyState\<close> and the assignment \<open>xhr.onreadystatechange = noop\<close> throw.
  Calling a callback that is \<open>undefined\<close> throws as well, before the cleanup.
\<close>

definition onComplete :: "nat \<Rightarrow> bool \<Rightarrow> pstate \<Rightarrow> error option \<times> pstate" where
  "onComplete k aborted st =
     (if \<not> k < length (penvs st) then (None, st)
      else let env = penvs st ! k in
        case p_xhr env of
          None \<Rightarrow> (Some TypeError, st)
        | Some x \<Rightarrow>
            if \<not> (aborted \<or> readyState (xhrs st ! x) = 4) then (None, st)
            else
              let st1 = update_xhr x (\<lambda>r. r\<lparr>onreadystatechange := Noop\<rparr>) st;
                  status1 = (case status (xhrs st ! x) of None \<Rightarrow> - 1 | Some s \<Rightarrow> s);
                  statusText1 = (case statusText (xhrs st ! x) of None \<Rightarrow> [] | Some t \<Rightarrow> t);
                  called =
                    (if status1 div 100 = 2 then
                       (case p_complete env of
                          None \<Rightarrow> None
                        | Some f \<Rightarrow>
                            Some [Invoked k Completion [Str (responseText (xhrs st ! x))],
                                  UserCalled f None [Str (responseText (xhrs st ! x))]])
                     else
                       (case p_error env of
                          None \<Rightarrow> None
                        | Some f \<Rightarrow>
                            Some [Invoked k Failure [Num status1, Str statusText1],
                                  UserCalled f None [Num status1, Str statusText1]]))
              in case called of
                   None \<Rightarrow> (Some TypeError, st1)
                 | Some evs \<Rightarrow>
                     (None,
                      st1\<lparr>ptrace := ptrace st1 @ evs,
                          requestsIE :=
                            (case requestsIE st1 of
                               None \<Rightarrow> None
                             | Some l \<Rightarrow>
                                 Some (splice (case p_xhrIdx env of None \<Rightarrow> 0 | Some i \<Rightarrow> i)
                                         1 l)),
                          penvs := (penvs st1)[k := env\<lparr>p_xhr := None, p_complete := None,
                                                       p_error := None\<rparr>]\<rparr>))"

text \<open>
  \<open>post\<close>, in two parts.  The first part runs from the declaration of \<open>bodyText\<close> to
  \<open>xhr.send(bodyText)\<close>; \<open>x\<close> is the new request object.  \<open>bodyText\<close> is initialised from
  itself when \<open>params\<close> is a string, that is, from \<open>undefined\<close>; \<open>bodyText.length\<close> is read
  for the \<open>Content-Length\<close> header.  \<open>after_send\<close> is what the host reports of the request
  when \<open>send\<close> returns.
\<close>

definition post_send ::
  "string \<Rightarrow> params \<Rightarrow> nat \<Rightarrow> xhr_view \<Rightarrow> pstate \<Rightarrow> error option \<times> pstate" where
  "post_send url params x after_send st =
     (let bodyText = (case params of PString s \<Rightarrow> None | PObject obj \<Rightarrow> Some (urlSerialize obj))
      in if \<not> xhrSupport st then (Some NoRequestObject, st)
      else
        let st1 = st\<lparr>xhrs := xhrs st @ [new_xhr\<lparr>readyState := 1,
                                                 opened := Some (''POST'', url, True)\<rparr>]\<rparr>;
            st2 = st1\<lparr>requestsIE := map_option (\<lambda>l. l @ [x]) (requestsIE st1)\<rparr>;
            st3 = setRequestHeader x ''Content-Type'' ''application/x-www-form-urlencoded'' st2
        in case bodyText of
             None \<Rightarrow> (Some TypeError, st3)
           | Some body \<Rightarrow>
               let st4 = setRequestHeader x ''Content-Length'' (decimal (length body)) st3;
                   st5 = setRequestHeader x ''X-Requested-With'' ''XMLHttpRequest'' st4;
                   st6 = setRequestHeader x ''X-RPC-Token'' (p_rpcToken st5) st5
               in (None, update_xhr x (\<lambda>r. set_view after_send (r\<lparr>sent := Some body\<rparr>)) st6))"

text \<open>
  The whole of \<open>post\<close>.  \<open>push\<close> returns the new length of \<open>requestsIE\<close>, which is kept in
  \<open>xhrIdx\<close>.  After \<open>send\<close>: a request that is already complete is handled at once,
  otherwise \<open>onComplete\<close> becomes the handler and the timeout is set.
\<close>

definition post ::
  "string \<Rightarrow> params \<Rightarrow> nat timeout_arg \<Rightarrow> nat option \<Rightarrow> nat option \<Rightarrow> xhr_view \<Rightarrow> pstate
     \<Rightarrow> error option \<times> pstate" where
  "post url params timeout0 complete0 error0 after_send st =
     (let (timeout, complete, error) = post_args timeout0 complete0 error0;
          x = length (xhrs st);
          xhrIdx = (case requestsIE st of None \<Rightarrow> None | Some l \<Rightarrow> Some (length l + 1))
      in case post_send url params x after_send st of
           (Some err, st') \<Rightarrow> (Some err, st')
         | (None, st7) \<Rightarrow>
             let k = length (penvs st7);
                 st8 = st7\<lparr>penvs := penvs st7 @
                         [\<lparr>p_xhr = Some x, p_complete = complete, p_error = error,
                           p_xhrIdx = xhrIdx\<rparr>]\<rparr>
             in if readyState (xhrs st8 ! x) = 4 then onComplete k False st8
                else (None, (update_xhr x (\<lambda>r. r\<lparr>onreadystatechange := OnComplete k\<rparr>) st8)
                              \<lparr>ptimers := ptimers st8 @ [(k, timeout)]\<rparr>))"

text \<open>
  What can happen to the page: a call of \<open>post\<close>, a request changing state (the host
  updates what it reports and dispatches \<open>readystatechange\<close>), a pending timer running.
  An exception that reaches the top is caught by no one; the state stays as it was when
  the exception was thrown.  Leaving the page, where the \<open>unload\<close> handler detaches and
  aborts the requests of \<open>requestsIE\<close>, ends every run and is not an input.
\<close>

datatype pinput =
    CallPost string params "nat timeout_arg" "nat option" "nat option" xhr_view
  | ReadyStateChange nat xhr_view
  | PostTimerFires nat

fun pstep :: "pinput \<Rightarrow> pstate \<Rightarrow> pstate" where
  "pstep (CallPost url params t c e v) st = snd (post url params t c e v st)"
| "pstep (ReadyStateChange x v) st =
     (if \<not> x < length (xhrs st) then st
      else let st1 = update_xhr x (set_view v) st in
        case onreadystatechange (xhrs st1 ! x) of
          OnComplete k \<Rightarrow> snd (onComplete k False st1)
        | _ \<Rightarrow> st1)"
| "pstep (PostTimerFires k) st =
     (if k \<notin> fst ` set (ptimers st) then st
      else snd (onComplete k True (st\<lparr>ptimers := filter (\<lambda>(j, d). j \<noteq> k) (ptimers st)\<rparr>)))"

definition prun :: "pinput list \<Rightarrow> pstate \<Rightarrow> pstate" where
  "prun ins st = fold pstep ins st"

text \<open>
  The page after loading the library: \<open>requestsIE\<close> is \<open>undefined\<close> where
  \<open>window.ActiveXObject\<close> exists and an empty array elsewhere.
\<close>

definition pinit :: "bool \<Rightarrow> bool \<Rightarrow> string \<Rightarrow> pstate" where
  "pinit support activeX token =
     \<lparr>xhrs = [], penvs = [], requestsIE = (if activeX then None else Some []),
      ptimers = [], ptrace = [], p_rpcToken = token, xhrSupport = support\<rparr>"

section \<open>The library: \<open>rpc\<close>, \<open>create\<close> and \<open>Widget\<close>\<close>

subsection \<open>State\<close>

text \<open>
  Functions that reach the cross-origin transport: a caller's function, or one of the two
  closures that \<open>Widget._rpc\<close> builds around \<open>that\<close> (a widget), the caller's \<open>complete\<close>
  or \<open>error\<close>, and for \<open>onerror\<close> also \<open>methodName\<close> and \<open>data\<close>.
\<close>

datatype callback =
    User nat
  | Oncomplete nat "callback option"
  | Onerror nat "callback option" string jsval

text \<open>The entries of \<open>mythril._callbacks\<close>: the two closures of invocation \<open>k\<close> of \<open>rpc\<close>.\<close>

datatype slot = SlotComplete nat | SlotError nat

text \<open>Children of the document head: script elements made by \<open>rpc\<close>, and the page's own.\<close>

datatype node = ScriptEl nat | HostNode nat

record widget =
  container :: "nat option"
  hostURL :: string
  links :: jsobject
  wclass :: nat

text \<open>The variables one invocation of \<open>rpc\<close> shares with its closures.\<close>

record rpc_env =
  script :: "nat option"
  complete :: "callback option"
  error :: "callback option"
  cidx :: nat
  eidx :: nat

text \<open>
  \<open>widgets\<close> is the registry; \<open>heap\<close> holds the widget objects, a widget being referred to
  by its position; \<open>document\<close> finds an element by id; \<open>scripts\<close> holds the \<open>src\<close> of the
  script element that invocation \<open>k\<close> created; \<open>timers\<close> are the pending timeouts, by
  invocation, with their delay.
\<close>

record mstate =
  widgets :: "string \<Rightarrow> nat option"
  heap :: "widget list"
  document :: "string \<Rightarrow> nat option"
  callbacks :: "slot list"
  envs :: "rpc_env list"
  scripts :: "string list"
  head :: "node list"
  timers :: "(nat \<times> int) list"
  trace :: "event list"
  rpcToken :: string

definition emit :: "event \<Rightarrow> mstate \<Rightarrow> mstate" where
  "emit ev st = st\<lparr>trace := trace st @ [ev]\<rparr>"

text \<open>\<open>that.container\<close> is truthy: the widget has not been torn down.\<close>

definition live :: "mstate \<Rightarrow> nat \<Rightarrow> bool" where
  "live st w \<longleftrightarrow> w < length (heap st) \<and> container (heap st ! w) \<noteq> None"

subsection \<open>Calling a function\<close>

text \<open>
  \<open>oncomplete\<close> and \<open>onerror\<close> of \<open>Widget._rpc\<close>.  \<open>complete.call(that, data)\<close> throws when
  \<open>complete\<close> was not given; a missing \<open>error\<close> falls back on the widget's \<open>onerror\<close> hook.
\<close>

fun call_fn :: "callback \<Rightarrow> nat option \<Rightarrow> jsval list \<Rightarrow> mstate \<Rightarrow> error option \<times> mstate" where
  "call_fn (User f) this args st = (None, emit (UserCalled f this args) st)"
| "call_fn (Oncomplete that c) this args st =
     (if live st that then
        (case c of
           None \<Rightarrow> (Some TypeError, st)
         | Some c' \<Rightarrow> call_fn c' (Some that) [arg 0 args] st)
      else (None, st))"
| "call_fn (Onerror that e methodName data) this args st =
     (if live st that then
        (case e of
           Some e' \<Rightarrow> call_fn e' (Some that) [arg 0 args, arg 1 args] st
         | None \<Rightarrow>
             (None, emit (HookCalled that Onerror_hook
                            [Str methodName, data, arg 0 args, arg 1 args]) st))
      else (None, st))"

subsection \<open>The cross-origin transport \<open>rpc\<close>\<close>

text \<open>
  \<open>cleanup\<close> of invocation \<open>k\<close>: \<open>removeChild\<close> throws when the node is not a child;
  \<open>splice(cidx, 2)\<close> uses the index the slot had when it was pushed.
\<close>

definition cleanup :: "nat \<Rightarrow> mstate \<Rightarrow> error option \<times> mstate" where
  "cleanup k st =
     (let env = envs st ! k in
      case script env of
        None \<Rightarrow> (Some TypeError, st)
      | Some s \<Rightarrow>
          if ScriptEl s \<notin> set (head st) then (Some NotFoundError, st)
          else (None,
                st\<lparr>head := remove1 (ScriptEl s) (head st),
                   callbacks := splice (cidx env) 2 (callbacks st),
                   envs := (envs st)[k := env\<lparr>script := None, complete := None,
                                              error := None\<rparr>]\<rparr>))"

text \<open>
  The three closures of invocation \<open>k\<close>, each of the shape
  \<open>if (script) { if (f) { f(...); } cleanup(); }\<close>: the completion slot, the error slot and
  the timeout.  An exception thrown by \<open>f\<close> leaves before \<open>cleanup\<close>.
\<close>

definition resolve ::
  "nat \<Rightarrow> cbkind \<Rightarrow> jsval list \<Rightarrow> mstate \<Rightarrow> error option \<times> mstate" where
  "resolve k kind args st =
     (if \<not> k < length (envs st) then (None, st)
      else if script (envs st ! k) = None then (None, st)
      else
        (case (case kind of Completion \<Rightarrow> complete (envs st ! k)
                          | Failure \<Rightarrow> error (envs st ! k)) of
           None \<Rightarrow> cleanup k st
         | Some f \<Rightarrow>
             (case call_fn f None args (emit (Invoked k kind args) st) of
                (Some e, st') \<Rightarrow> (Some e, st')
              | (None, st') \<Rightarrow> cleanup k st')))"

definition slot_complete :: "nat \<Rightarrow> jsval list \<Rightarrow> mstate \<Rightarrow> error option \<times> mstate" where
  "slot_complete k args st = resolve k Completion [arg 0 args] st"

definition slot_error :: "nat \<Rightarrow> jsval list \<Rightarrow> mstate \<Rightarrow> error option \<times> mstate" where
  "slot_error k args st = resolve k Failure [arg 0 args, arg 1 args] st"

definition on_timeout :: "nat \<Rightarrow> mstate \<Rightarrow> error option \<times> mstate" where
  "on_timeout k st = resolve k Failure [Num (- 1), Str []] st"

text \<open>
  The argument shuffle and the default of \<open>rpc\<close>: only \<open>undefined\<close> becomes 10000; \<open>null\<close>
  stays and means that no timeout is set.
\<close>

definition rpc_args ::
  "'f timeout_arg \<Rightarrow> 'f option \<Rightarrow> 'f option \<Rightarrow> 'f timeout_arg \<times> 'f option \<times> 'f option" where
  "rpc_args timeout complete0 error0 =
     (case timeout of
        TFunction f \<Rightarrow> (TNumber 10000, Some f, complete0)
      | TUndefined \<Rightarrow> (TNumber 10000, complete0, error0)
      | TNull \<Rightarrow> (TNull, complete0, error0)
      | TNumber n \<Rightarrow> (TNumber n, complete0, error0))"

definition script_src :: "string \<Rightarrow> jsval \<Rightarrow> nat \<Rightarrow> nat \<Rightarrow> string \<Rightarrow> string" where
  "script_src url data ci ei token =
     url @ ''?data='' @ encodeURIComponent (JSON_stringify data)
       @ ''&complete=mythril._callbacks['' @ decimal ci @ '']''
       @ ''&error=mythril._callbacks['' @ decimal ei @ '']''
       @ ''&rpcToken='' @ encodeURIComponent token"

definition rpc ::
  "string \<Rightarrow> jsval \<Rightarrow> callback timeout_arg \<Rightarrow> callback option \<Rightarrow> callback option \<Rightarrow> mstate
     \<Rightarrow> mstate" where
  "rpc url data timeout0 complete0 error0 st =
     (let (timeout, complete1, error1) = rpc_args timeout0 complete0 error0;
          k = length (envs st);
          ci = length (callbacks st);
          ei = length (callbacks st) + 1
      in st\<lparr>callbacks := callbacks st @ [SlotComplete k, SlotError k],
            envs := envs st @ [\<lparr>script = Some k, complete = complete1, error = error1,
                                cidx = ci, eidx = ei\<rparr>],
            timers := (case timeout of TNumber n \<Rightarrow> timers st @ [(k, n)] | _ \<Rightarrow> timers st),
            scripts := scripts st @ [script_src url data ci ei (rpcToken st)],
            head := ScriptEl k # head st\<rparr>)"

subsection \<open>Widgets\<close>

text \<open>
  The constructor and \<open>_destroy\<close> of \<open>Widget\<close>, and \<open>create\<close>.  The widget class given to
  \<open>create\<close> is a subclass of \<open>Widget\<close> that keeps its constructor; its hooks are opaque.
\<close>

definition Widget_constructor ::
  "nat \<Rightarrow> nat option \<Rightarrow> jsval \<Rightarrow> string \<Rightarrow> jsobject \<Rightarrow> mstate \<Rightarrow> mstate" where
  "Widget_constructor cls elem data url lnks st =
     emit (HookCalled (length (heap st)) Init [data])
       (st\<lparr>heap := heap st @ [\<lparr>container = elem, hostURL = url, links = lnks,
                                wclass = cls\<rparr>]\<rparr>)"

definition Widget_destroy :: "nat \<Rightarrow> mstate \<Rightarrow> mstate" where
  "Widget_destroy w st =
     (emit (HookCalled w Destroy []) st)
       \<lparr>heap := (heap st)[w := (heap st ! w)\<lparr>container := None\<rparr>]\<rparr>"

definition create :: "nat \<Rightarrow> string \<Rightarrow> jsval \<Rightarrow> string \<Rightarrow> jsobject \<Rightarrow> mstate \<Rightarrow> mstate" where
  "create WidgetClass id0 data hostURL0 lnks st =
     (let elem = document st id0;
          existing = widgets st id0;
          n = int (length hostURL0);
          hostURL1 = (if substring hostURL0 (n - 1) n = ''/'' then substring hostURL0 0 (n - 1)
                      else hostURL0);
          st1 = (case existing of None \<Rightarrow> st | Some w \<Rightarrow> Widget_destroy w st);
          w1 = length (heap st1);
          st2 = Widget_constructor WidgetClass elem data hostURL1 lnks st1
      in st2\<lparr>widgets := (widgets st2)(id0 \<mapsto> w1)\<rparr>)"

text \<open>\<open>_rpc\<close> of widget \<open>w\<close>: four arguments reach \<open>rpc\<close>, the third being a function.\<close>

definition Widget_rpc ::
  "nat \<Rightarrow> string \<Rightarrow> jsval \<Rightarrow> callback option \<Rightarrow> callback option \<Rightarrow> mstate \<Rightarrow> mstate" where
  "Widget_rpc w methodName data complete0 error0 st =
     rpc (hostURL (heap st ! w) @ ''/'' @ methodName) data
       (TFunction (Oncomplete w complete0)) (Some (Onerror w error0 methodName data)) None st"

subsection \<open>What can happen to the page\<close>

text \<open>
  Calls into the library, a loaded response script evaluating
  \<open>mythril._callbacks[i](...)\<close> (a \<open>TypeError\<close> when nothing is at \<open>i\<close>), and a pending
  timeout running.  An exception that reaches the top is caught by no one; the state stays
  as it was when the exception was thrown.
\<close>

datatype minput =
    CallRpc string jsval "callback timeout_arg" "callback option" "callback option"
  | CallCreate nat string jsval string jsobject
  | CallWidgetRpc nat string jsval "callback option" "callback option"
  | ScriptCalls nat "jsval list"
  | TimerFires nat

fun mstep :: "minput \<Rightarrow> mstate \<Rightarrow> mstate" where
  "mstep (CallRpc url data t c e) st = rpc url data t c e st"
| "mstep (CallCreate cls id0 data url lnks) st = create cls id0 data url lnks st"
| "mstep (CallWidgetRpc w m data c e) st =
     (if w < length (heap st) then Widget_rpc w m data c e st else st)"
| "mstep (ScriptCalls i args) st =
     (if \<not> i < length (callbacks st) then st
      else case callbacks st ! i of
             SlotComplete k \<Rightarrow> snd (slot_complete k args st)
           | SlotError k \<Rightarrow> snd (slot_error k args st))"
| "mstep (TimerFires k) st =
     (if k \<notin> fst ` set (timers st) then st
      else snd (on_timeout k (st\<lparr>timers := filter (\<lambda>(j, d). j \<noteq> k) (timers st)\<rparr>)))"

definition mrun :: "minput list \<Rightarrow> mstate \<Rightarrow> mstate" where
  "mrun ins st = fold mstep ins st"

text \<open>The page after loading the library, with its document and the head's own nodes.\<close>

definition minit :: "(string \<Rightarrow> nat option) \<Rightarrow> node list \<Rightarrow> string \<Rightarrow> mstate" where
  "minit doc nodes token =
     \<lparr>widgets = Map.empty, heap = [], document = doc, callbacks = [], envs = [],
      scripts = [], head = nodes, timers = [], trace = [], rpcToken = token\<rparr>"

subsection \<open>Notions used in the properties\<close>

text \<open>
  A function returns normally wherever it is called: a caller's function does by
  assumption; the closures of \<open>Widget._rpc\<close> do when every call they make does.
\<close>

fun nothrow :: "callback \<Rightarrow> bool" where
  "nothrow (User f) = True"
| "nothrow (Oncomplete that c) = (case c of None \<Rightarrow> False | Some c' \<Rightarrow> nothrow c')"
| "nothrow (Onerror that e methodName data) = (case e of None \<Rightarrow> True | Some e' \<Rightarrow> nothrow e')"

text \<open>The events that are runs of a caller's function or of a hook.\<close>

definition user_event :: "event \<Rightarrow> bool" where
  "user_event ev = (case ev of Invoked _ _ _ \<Rightarrow> False | _ \<Rightarrow> True)"

text \<open>
  Invariants of the page.  Every invocation's \<open>script\<close> variable is its own element or
  cleared; the trace and the pending timeouts mention only invocations that exist.
\<close>

definition page_ok :: "mstate \<Rightarrow> bool" where
  "page_ok st \<longleftrightarrow>
     (\<forall>j < length (envs st). script (envs st ! j) = None \<or> script (envs st ! j) = Some j)
     \<and> (\<forall>j. length (envs st) \<le> j \<longrightarrow> invoked j (trace st) = 0)
     \<and> (\<forall>j \<in> fst ` set (timers st). j < length (envs st))"

text \<open>
  An invocation \<open>k\<close> of \<open>rpc\<close> with callbacks \<open>c\<close> and \<open>e\<close>: while it is unresolved its
  element is in the head, its variables are intact, nothing has been called and (if it set
  a timeout) the timeout is pending; once resolved, exactly one call has been made.
\<close>

definition call_inv :: "bool \<Rightarrow> nat \<Rightarrow> callback \<Rightarrow> callback \<Rightarrow> mstate \<Rightarrow> bool" where
  "call_inv timed k c e st \<longleftrightarrow>
     k < length (envs st) \<and>
     (case script (envs st ! k) of
        Some s \<Rightarrow> ScriptEl s \<in> set (head st) \<and> complete (envs st ! k) = Some c
                  \<and> error (envs st ! k) = Some e \<and> invoked k (trace st) = 0
                  \<and> (timed \<longrightarrow> k \<in> fst ` set (timers st))
      | None \<Rightarrow> invoked k (trace st) = 1)"

text \<open>
  The same for the page of the earlier revision and an invocation \<open>k\<close> of \<open>post\<close> with
  callbacks \<open>c\<close> and \<open>e\<close>; an unresolved invocation always has its timeout pending.
\<close>

definition ppage_ok :: "pstate \<Rightarrow> bool" where
  "ppage_ok st \<longleftrightarrow> (\<forall>j. length (penvs st) \<le> j \<longrightarrow> invoked j (ptrace st) = 0)"

definition post_inv :: "nat \<Rightarrow> nat \<Rightarrow> nat \<Rightarrow> pstate \<Rightarrow> bool" where
  "post_inv k c e st \<longleftrightarrow>
     k < length (penvs st) \<and>
     (case p_xhr (penvs st ! k) of
        Some x \<Rightarrow> p_complete (penvs st ! k) = Some c \<and> p_error (penvs st ! k) = Some e
                  \<and> invoked k (ptrace st) = 0 \<and> k \<in> fst ` set (ptimers st)
      | None \<Rightarrow> invoked k (ptrace st) = 1)"



section \<open>Percent-encoding and its inverse\<close>






















section \<open>Traces, calls and resolution\<close>

lemma invoked_append: "invoked k (xs @ ys) = invoked k xs + invoked k ys"
  by (simp add: invoked_def)

lemma invoked_Nil: "invoked k [] = 0"
  by (simp add: invoked_def)

lemma invoked_Cons_Invoked: "invoked k (Invoked j kind args # evs) = (if j = k then 1 else 0) + invoked k evs"
  by (simp add: invoked_def)

lemma invoked_user: "\<forall>ev\<in>set evs. user_event ev \<Longrightarrow> invoked k evs = 0"
  by (induction evs) (auto simp: invoked_def user_event_def split: event.splits)

lemma call_fn_frame:
  "\<exists>evs. snd (call_fn f this args st) = st\<lparr>trace := trace st @ evs\<rparr> \<and> (\<forall>ev\<in>set evs. user_event ev)"
proof (induction f this args st rule: call_fn.induct)
  case (1 f this args st)
  have "snd (call_fn (User f) this args st) = st\<lparr>trace := trace st @ [UserCalled f this args]\<rparr>"
    by (simp add: emit_def)
  then show ?case by (auto simp: user_event_def)
next
  case (2 that c this args st)
  have triv: "st = st\<lparr>trace := trace st @ []\<rparr>" by simp
  show ?case
  proof (cases "live st that")
    case True
    show ?thesis
    proof (cases c)
      case None
      with True triv show ?thesis by (auto intro: exI [of _ "[]"])
    next
      case (Some c')
      with True "2.IH" show ?thesis by simp
    qed
  next
    case False
    with triv show ?thesis by (auto intro: exI [of _ "[]"])
  qed
next
  case (3 that e methodName data this args st)
  have triv: "st = st\<lparr>trace := trace st @ []\<rparr>" by simp
  show ?case
  proof (cases "live st that")
    case True
    show ?thesis
    proof (cases e)
      case None
      have "snd (call_fn (Onerror that None methodName data) this args st)
          = st\<lparr>trace := trace st @ [HookCalled that Onerror_hook [Str methodName, data, arg 0 args, arg 1 args]]\<rparr>"
        using True by (simp add: emit_def)
      with None show ?thesis by (auto simp: user_event_def)
    next
      case (Some e')
      with True "3.IH" show ?thesis by simp
    qed
  next
    case False
    with triv show ?thesis by (auto intro: exI [of _ "[]"])
  qed
qed

lemma call_fn_nothrow: "nothrow f \<Longrightarrow> fst (call_fn f this args st) = None"
  by (induction f this args st rule: call_fn.induct) (auto split: option.splits)

lemma cleanup_fields:
  "widgets (snd (cleanup j st)) = widgets st \<and> heap (snd (cleanup j st)) = heap st
   \<and> document (snd (cleanup j st)) = document st \<and> timers (snd (cleanup j st)) = timers st
   \<and> scripts (snd (cleanup j st)) = scripts st \<and> rpcToken (snd (cleanup j st)) = rpcToken st
   \<and> trace (snd (cleanup j st)) = trace st
   \<and> length (envs (snd (cleanup j st))) = length (envs st)
   \<and> (\<forall>k. k \<noteq> j \<longrightarrow> envs (snd (cleanup j st)) ! k = envs st ! k)
   \<and> (envs (snd (cleanup j st)) ! j = envs st ! j
      \<or> script (envs (snd (cleanup j st)) ! j) = None
        \<and> complete (envs (snd (cleanup j st)) ! j) = None
        \<and> error (envs (snd (cleanup j st)) ! j) = None)
   \<and> (head (snd (cleanup j st)) = head st
      \<or> (\<exists>s. script (envs st ! j) = Some s \<and> head (snd (cleanup j st)) = remove1 (ScriptEl s) (head st)))"
proof (cases "j < length (envs st)")
  case True
  then show ?thesis by (auto simp: cleanup_def Let_def split: option.splits)
next
  case False
  then have "(envs st)[j := v] = envs st" for v by (simp add: list_update_beyond)
  then show ?thesis by (auto simp: cleanup_def Let_def split: option.splits)
qed

lemma resolve_fields:
  "widgets (snd (resolve j kind args st)) = widgets st \<and> heap (snd (resolve j kind args st)) = heap st
   \<and> document (snd (resolve j kind args st)) = document st
   \<and> timers (snd (resolve j kind args st)) = timers st
   \<and> scripts (snd (resolve j kind args st)) = scripts st
   \<and> rpcToken (snd (resolve j kind args st)) = rpcToken st
   \<and> length (envs (snd (resolve j kind args st))) = length (envs st)
   \<and> (\<forall>k. k \<noteq> j \<longrightarrow> envs (snd (resolve j kind args st)) ! k = envs st ! k)
   \<and> (envs (snd (resolve j kind args st)) ! j = envs st ! j
      \<or> script (envs (snd (resolve j kind args st)) ! j) = None
        \<and> complete (envs (snd (resolve j kind args st)) ! j) = None
        \<and> error (envs (snd (resolve j kind args st)) ! j) = None)
   \<and> (\<exists>evs. trace (snd (resolve j kind args st)) = trace st @ evs
            \<and> (\<forall>k. k \<noteq> j \<longrightarrow> invoked k evs = 0))
   \<and> (head (snd (resolve j kind args st)) = head st
      \<or> (\<exists>s. script (envs st ! j) = Some s
             \<and> head (snd (resolve j kind args st)) = remove1 (ScriptEl s) (head st)))"
proof (cases "j < length (envs st) \<and> script (envs st ! j) \<noteq> None")
  case False
  then have "resolve j kind args st = (None, st)" by (auto simp: resolve_def)
  then show ?thesis by (auto intro: exI [of _ "[]"] simp: invoked_Nil)
next
  case True
  let ?cb = "case kind of Completion \<Rightarrow> complete (envs st ! j) | Failure \<Rightarrow> error (envs st ! j)"
  show ?thesis
  proof (cases ?cb)
    case None
    with True have r: "resolve j kind args st = cleanup j st" by (auto simp: resolve_def)
    from cleanup_fields [of j st] show ?thesis unfolding r
      by (auto intro: exI [of _ "[]"] simp: invoked_Nil)
  next
    case (Some f)
    let ?st1 = "emit (Invoked j kind args) st"
    obtain evs where evs: "snd (call_fn f None args ?st1) = ?st1\<lparr>trace := trace ?st1 @ evs\<rparr>"
      and ue: "\<forall>ev\<in>set evs. user_event ev"
      using call_fn_frame [of f None args ?st1] by blast
    let ?st2 = "snd (call_fn f None args ?st1)"
    have tr: "trace ?st2 = trace st @ (Invoked j kind args # evs)"
      by (simp only: evs) (simp add: emit_def)
    have inv0: "\<forall>k. k \<noteq> j \<longrightarrow> invoked k (Invoked j kind args # evs) = 0"
      using invoked_user [OF ue] by (simp add: invoked_Cons_Invoked)
    have same: "widgets ?st2 = widgets st" "heap ?st2 = heap st" "document ?st2 = document st"
      "timers ?st2 = timers st" "scripts ?st2 = scripts st" "rpcToken ?st2 = rpcToken st"
      "envs ?st2 = envs st" "head ?st2 = head st"
      by (simp_all only: evs) (simp_all add: emit_def)
    have r: "snd (resolve j kind args st) = ?st2 \<or> snd (resolve j kind args st) = snd (cleanup j ?st2)"
      using True Some by (auto simp: resolve_def split: prod.splits option.splits)
    then show ?thesis
    proof
      assume a: "snd (resolve j kind args st) = ?st2"
      show ?thesis unfolding a using same tr inv0 by auto
    next
      assume a: "snd (resolve j kind args st) = snd (cleanup j ?st2)"
      show ?thesis unfolding a using cleanup_fields [of j ?st2] same tr inv0 by auto
    qed
  qed
qed

section \<open>Invariants of the cross-origin transport\<close>

lemma resolve_idle:
  "\<not> j < length (envs st) \<or> script (envs st ! j) = None \<Longrightarrow> resolve j kind args st = (None, st)"
  by (auto simp: resolve_def)

lemma resolve_self:
  assumes k: "k < length (envs st)" and s: "script (envs st ! k) = Some s"
    and h: "ScriptEl s \<in> set (head st)"
    and c: "complete (envs st ! k) = Some c" and e: "error (envs st ! k) = Some e"
    and nc: "nothrow c" and ne: "nothrow e"
  shows "script (envs (snd (resolve k kind args st)) ! k) = None
     \<and> invoked k (trace (snd (resolve k kind args st))) = Suc (invoked k (trace st))
     \<and> trace (snd (resolve k kind args st)) ! length (trace st) = Invoked k kind args"
proof -
  let ?f = "case kind of Completion \<Rightarrow> c | Failure \<Rightarrow> e"
  let ?st1 = "emit (Invoked k kind args) st"
  have cb: "(case kind of Completion \<Rightarrow> complete (envs st ! k) | Failure \<Rightarrow> error (envs st ! k)) = Some ?f"
    using c e by (cases kind) simp_all
  have nf: "nothrow ?f" using nc ne by (cases kind) simp_all
  obtain evs where evs: "snd (call_fn ?f None args ?st1) = ?st1\<lparr>trace := trace ?st1 @ evs\<rparr>"
    and ue: "\<forall>ev\<in>set evs. user_event ev"
    using call_fn_frame [of ?f None args ?st1] by blast
  let ?st2 = "?st1\<lparr>trace := trace ?st1 @ evs\<rparr>"
  have cf: "call_fn ?f None args ?st1 = (None, ?st2)"
    using call_fn_nothrow [OF nf, of None args ?st1] evs by (metis prod.collapse)
  have r: "resolve k kind args st = cleanup k ?st2"
    using k s cb cf by (simp add: resolve_def)
  have st2: "envs ?st2 = envs st" "head ?st2 = head st"
    "trace ?st2 = trace st @ Invoked k kind args # evs"
    by (simp_all add: emit_def)
  have cl: "cleanup k ?st2 = (None, ?st2\<lparr>head := remove1 (ScriptEl s) (head st),
       callbacks := splice (cidx (envs st ! k)) 2 (callbacks ?st2),
       envs := (envs st)[k := (envs st ! k)\<lparr>script := None, complete := None, error := None\<rparr>]\<rparr>)"
    using s h st2 by (simp add: cleanup_def Let_def)
  show ?thesis unfolding r cl using k st2 invoked_user [OF ue, of k]
    by (simp add: invoked_append invoked_Cons_Invoked nth_append)
qed

lemma page_ok_rpc: "page_ok st \<Longrightarrow> page_ok (rpc url data t c e st)"
  by (auto simp: page_ok_def rpc_def Let_def nth_append less_Suc_eq split: prod.splits timeout_arg.splits)

lemma page_ok_resolve:
  assumes "page_ok st" shows "page_ok (snd (resolve j kind args st))"
proof (cases "j < length (envs st)")
  case False
  then show ?thesis using assms by (simp add: resolve_idle)
next
  case True
  from resolve_fields [of j kind args st] obtain evs where
    f: "timers (snd (resolve j kind args st)) = timers st"
      "length (envs (snd (resolve j kind args st))) = length (envs st)"
      "\<forall>k. k \<noteq> j \<longrightarrow> envs (snd (resolve j kind args st)) ! k = envs st ! k"
      "envs (snd (resolve j kind args st)) ! j = envs st ! j
        \<or> script (envs (snd (resolve j kind args st)) ! j) = None"
      "trace (snd (resolve j kind args st)) = trace st @ evs"
      "\<forall>k. k \<noteq> j \<longrightarrow> invoked k evs = 0"
    by blast
  show ?thesis unfolding page_ok_def
  proof (intro conjI allI impI ballI)
    fix i assume "i < length (envs (snd (resolve j kind args st)))"
    with f assms show "script (envs (snd (resolve j kind args st)) ! i) = None
        \<or> script (envs (snd (resolve j kind args st)) ! i) = Some i"
      by (cases "i = j") (auto simp: page_ok_def)
  next
    fix i assume "length (envs (snd (resolve j kind args st))) \<le> i"
    with f True assms show "invoked i (trace (snd (resolve j kind args st))) = 0"
      by (auto simp: page_ok_def invoked_append)
  next
    fix i assume "i \<in> fst ` set (timers (snd (resolve j kind args st)))"
    with f assms show "i < length (envs (snd (resolve j kind args st)))"
      by (auto simp: page_ok_def)
  qed
qed

lemma create_fields:
  "envs (create cls id0 data url lnks st) = envs st
   \<and> timers (create cls id0 data url lnks st) = timers st
   \<and> head (create cls id0 data url lnks st) = head st
   \<and> callbacks (create cls id0 data url lnks st) = callbacks st
   \<and> scripts (create cls id0 data url lnks st) = scripts st
   \<and> (\<exists>evs. trace (create cls id0 data url lnks st) = trace st @ evs
            \<and> (\<forall>ev\<in>set evs. user_event ev))"
  by (auto simp: create_def Let_def Widget_constructor_def Widget_destroy_def emit_def
        user_event_def split: option.splits)

lemma page_ok_create: "page_ok st \<Longrightarrow> page_ok (create cls id0 data url lnks st)"
proof -
  assume ok: "page_ok st"
  from create_fields [of cls id0 data url lnks st] obtain evs where
    f: "envs (create cls id0 data url lnks st) = envs st"
       "timers (create cls id0 data url lnks st) = timers st"
       "trace (create cls id0 data url lnks st) = trace st @ evs"
       "\<forall>ev\<in>set evs. user_event ev"
    by blast
  from ok show ?thesis
    unfolding page_ok_def f using invoked_user [OF f(4)] by (simp add: invoked_append)
qed

lemma page_ok_mstep: "page_ok st \<Longrightarrow> page_ok (mstep i st)"
proof (cases i)
  case (TimerFires k)
  assume ok: "page_ok st"
  let ?st = "st\<lparr>timers := filter (\<lambda>(j, d). j \<noteq> k) (timers st)\<rparr>"
  from ok have "page_ok ?st" by (auto simp: page_ok_def)
  from page_ok_resolve [OF this] ok show ?thesis
    by (simp add: TimerFires on_timeout_def)
next
  case (ScriptCalls n args)
  assume ok: "page_ok st"
  with page_ok_resolve [OF ok] show ?thesis
    by (simp add: ScriptCalls slot_complete_def slot_error_def split: slot.splits)
qed (simp_all add: page_ok_rpc page_ok_create Widget_rpc_def)

lemma page_ok_mrun: "page_ok st \<Longrightarrow> page_ok (mrun ins st)"
  unfolding mrun_def by (induction ins arbitrary: st) (simp_all add: page_ok_mstep)

lemma page_ok_minit: "page_ok (minit doc nodes token)"
  by (simp add: page_ok_def minit_def invoked_Nil)

lemma call_inv_resolve_other:
  assumes ok: "page_ok st" and inv: "call_inv timed k c e st" and jk: "j \<noteq> k"
  shows "call_inv timed k c e (snd (resolve j kind args st))"
proof -
  let ?st' = "snd (resolve j kind args st)"
  from resolve_fields [of j kind args st] obtain evs where
    f: "timers ?st' = timers st" "length (envs ?st') = length (envs st)"
       "\<forall>i. i \<noteq> j \<longrightarrow> envs ?st' ! i = envs st ! i"
       "trace ?st' = trace st @ evs" "\<forall>i. i \<noteq> j \<longrightarrow> invoked i evs = 0"
       "head ?st' = head st
          \<or> (\<exists>s. script (envs st ! j) = Some s \<and> head ?st' = remove1 (ScriptEl s) (head st))"
    by blast
  from f jk have ek: "envs ?st' ! k = envs st ! k" and ik: "invoked k (trace ?st') = invoked k (trace st)"
    by (simp_all add: invoked_append)
  from inv have k: "k < length (envs st)" by (simp add: call_inv_def)
  show ?thesis
  proof (cases "script (envs st ! k)")
    case None
    with inv show ?thesis by (simp add: call_inv_def ek ik f(1,2))
  next
    case (Some s)
    with ok k have sk: "s = k" by (auto simp: page_ok_def)
    have hd: "ScriptEl s \<in> set (head ?st')"
    proof (cases "j < length (envs st)")
      case False
      then have "?st' = st" by (simp add: resolve_idle)
      with inv Some show ?thesis by (simp add: call_inv_def)
    next
      case True
      from inv Some have in0: "ScriptEl s \<in> set (head st)" by (simp add: call_inv_def)
      from f(6) show ?thesis
      proof
        assume "head ?st' = head st" with in0 show ?thesis by simp
      next
        assume "\<exists>s'. script (envs st ! j) = Some s' \<and> head ?st' = remove1 (ScriptEl s') (head st)"
        then obtain s' where s': "script (envs st ! j) = Some s'"
          and h: "head ?st' = remove1 (ScriptEl s') (head st)" by blast
        from ok s' True have "s' = j" by (auto simp: page_ok_def)
        with h in0 sk jk show ?thesis by simp
      qed
    qed
    from inv Some show ?thesis by (simp add: call_inv_def ek ik f(1,2) hd)
  qed
qed

lemma call_inv_resolve_self:
  assumes inv: "call_inv False k c e st" and nc: "nothrow c" and ne: "nothrow e"
  shows "call_inv timed k c e (snd (resolve k kind args st))"
proof (cases "script (envs st ! k)")
  case None
  then have "resolve k kind args st = (None, st)" by (simp add: resolve_idle)
  with inv None show ?thesis by (simp add: call_inv_def)
next
  case (Some s)
  with inv have pre: "k < length (envs st)" "ScriptEl s \<in> set (head st)"
    "complete (envs st ! k) = Some c" "error (envs st ! k) = Some e" "invoked k (trace st) = 0"
    by (simp_all add: call_inv_def)
  from resolve_self [OF pre(1) Some pre(2,3,4) nc ne, of kind args] pre(1,5)
    resolve_fields [of k kind args st]
  show ?thesis by (simp add: call_inv_def)
qed

lemma call_inv_untimed: "call_inv timed k c e st \<Longrightarrow> call_inv False k c e st"
  by (auto simp: call_inv_def split: option.splits)

lemma call_inv_rpc:
  "call_inv timed k c e st \<Longrightarrow> call_inv timed k c e (rpc url data t c' e' st)"
  by (auto simp: call_inv_def rpc_def Let_def nth_append split: prod.splits option.splits timeout_arg.splits)

lemma call_inv_create:
  assumes "call_inv timed k c e st" shows "call_inv timed k c e (create cls id0 data url lnks st)"
proof -
  from create_fields [of cls id0 data url lnks st] obtain evs where
    f: "envs (create cls id0 data url lnks st) = envs st"
       "timers (create cls id0 data url lnks st) = timers st"
       "head (create cls id0 data url lnks st) = head st"
       "trace (create cls id0 data url lnks st) = trace st @ evs"
       "\<forall>ev\<in>set evs. user_event ev"
    by blast
  from assms show ?thesis
    unfolding call_inv_def f using invoked_user [OF f(5)]
    by (auto simp: invoked_append split: option.splits)
qed

lemma call_inv_mstep:
  assumes ok: "page_ok st" and inv: "call_inv timed k c e st"
    and nc: "nothrow c" and ne: "nothrow e"
  shows "call_inv timed k c e (mstep i st)"
proof (cases i)
  case (CallRpc url data t c' e')
  with inv show ?thesis by (simp add: call_inv_rpc)
next
  case (CallCreate cls id0 data url lnks)
  with inv show ?thesis by (simp add: call_inv_create)
next
  case (CallWidgetRpc w m data c' e')
  with inv show ?thesis by (simp add: call_inv_rpc Widget_rpc_def)
next
  case (ScriptCalls n args)
  have "call_inv timed k c e (snd (resolve j kind args' st))" for j kind args'
    using call_inv_resolve_other [OF ok inv, of j kind args']
      call_inv_resolve_self [OF call_inv_untimed [OF inv] nc ne, of timed kind args']
    by (cases "j = k") auto
  with inv show ?thesis
    by (simp add: ScriptCalls slot_complete_def slot_error_def split: slot.splits)
next
  case (TimerFires j)
  let ?st = "st\<lparr>timers := filter (\<lambda>(i, d). i \<noteq> j) (timers st)\<rparr>"
  show ?thesis
  proof (cases "j \<in> fst ` set (timers st)")
    case False
    with inv show ?thesis by (simp add: TimerFires)
  next
    case True
    have ok': "page_ok ?st" using ok by (auto simp: page_ok_def)
    show ?thesis
    proof (cases "j = k")
      case True
      from inv have "call_inv False k c e ?st" by (auto simp: call_inv_def split: option.splits)
      from call_inv_resolve_self [OF this nc ne, of timed Failure "[Num (- 1), Str []]"]
      show ?thesis using \<open>j \<in> fst ` set (timers st)\<close> True by (simp add: TimerFires on_timeout_def)
    next
      case False
      from inv False have "call_inv timed k c e ?st"
        by (force simp: call_inv_def split: option.splits)
      from call_inv_resolve_other [OF ok' this False, of Failure "[Num (- 1), Str []]"]
      show ?thesis using \<open>j \<in> fst ` set (timers st)\<close> by (simp add: TimerFires on_timeout_def)
    qed
  qed
qed

lemma call_inv_mrun:
  "page_ok st \<Longrightarrow> call_inv timed k c e st \<Longrightarrow> nothrow c \<Longrightarrow> nothrow e \<Longrightarrow>
   call_inv timed k c e (mrun ins st)"
  unfolding mrun_def
  by (induction ins arbitrary: st) (simp_all add: page_ok_mstep call_inv_mstep)

lemma call_inv_start:
  assumes ok: "page_ok st" and a: "rpc_args t0 c0 e0 = (t, Some c, Some e)"
  shows "call_inv (t \<noteq> TNull) (length (envs st)) c e (rpc url data t0 c0 e0 st)"
proof -
  from ok have "invoked (length (envs st)) (trace st) = 0" by (simp add: page_ok_def)
  moreover from a have "t = TNull \<or> (\<exists>n. t = TNumber n)"
    by (auto simp: rpc_args_def split: timeout_arg.splits)
  ultimately show ?thesis using a
    by (auto simp: call_inv_def rpc_def Let_def)
qed

lemma rpc_exactly_once:
  assumes "nothrow c" and "nothrow e" and "rpc_args t0 c0 e0 = (t, Some c, Some e)"
  shows "let st0 = mrun pre (minit doc nodes token);
             k = length (envs st0);
             st = mrun ins (rpc url data t0 c0 e0 st0)
         in invoked k (trace st) \<le> 1
            \<and> (t \<noteq> TNull \<and> k \<notin> fst ` set (timers st) \<longrightarrow> invoked k (trace st) = 1)"
proof -
  let ?st0 = "mrun pre (minit doc nodes token)"
  have ok: "page_ok ?st0" by (simp add: page_ok_mrun page_ok_minit)
  from call_inv_mrun [OF page_ok_rpc [OF ok] call_inv_start [OF ok assms(3)] assms(1,2)]
  have "call_inv (t \<noteq> TNull) (length (envs ?st0)) c e (mrun ins (rpc url data t0 c0 e0 ?st0))" .
  then show ?thesis by (auto simp: call_inv_def Let_def split: option.splits)
qed

section \<open>Invariants of the same-origin transport\<close>

lemma map_update_same: "(map f xs)[i := f (xs ! i)] = map f xs"
  by (metis list_update_id map_update)

lemma post_send_fields:
  "penvs (snd (post_send url params x v st)) = penvs st
   \<and> ptrace (snd (post_send url params x v st)) = ptrace st
   \<and> ptimers (snd (post_send url params x v st)) = ptimers st
   \<and> xhrSupport (snd (post_send url params x v st)) = xhrSupport st"
  by (simp add: post_send_def Let_def setRequestHeader_def update_xhr_def split: option.splits params.splits)

lemma onComplete_idle:
  "\<not> j < length (penvs st) \<or> p_xhr (penvs st ! j) = None \<Longrightarrow> snd (onComplete j aborted st) = st"
  by (auto simp: onComplete_def Let_def)

lemma onComplete_fields:
  "ptimers (snd (onComplete j aborted st)) = ptimers st
   \<and> xhrSupport (snd (onComplete j aborted st)) = xhrSupport st
   \<and> length (penvs (snd (onComplete j aborted st))) = length (penvs st)
   \<and> (\<forall>k. k \<noteq> j \<longrightarrow> penvs (snd (onComplete j aborted st)) ! k = penvs st ! k)
   \<and> (\<exists>evs. ptrace (snd (onComplete j aborted st)) = ptrace st @ evs
            \<and> (\<forall>k. k \<noteq> j \<longrightarrow> invoked k evs = 0))"
proof -
  have nil: "ptrace st = ptrace st @ [] \<and> (\<forall>k. k \<noteq> j \<longrightarrow> invoked k [] = 0)"
    by (simp add: invoked_Nil)
  show ?thesis
    apply (simp add: onComplete_def Let_def update_xhr_def split: option.splits)
    apply (intro conjI impI allI)
    apply (auto simp: invoked_def intro: exI [of _ "[]"])
    done
qed

lemma onComplete_self:
  assumes k: "k < length (penvs st)" and x: "p_xhr (penvs st ! k) = Some x"
    and c: "p_complete (penvs st ! k) = Some c" and e: "p_error (penvs st ! k) = Some e"
    and go: "aborted \<or> readyState (xhrs st ! x) = 4"
  shows "p_xhr (penvs (snd (onComplete k aborted st)) ! k) = None
     \<and> invoked k (ptrace (snd (onComplete k aborted st))) = Suc (invoked k (ptrace st))"
  using assms by (auto simp: onComplete_def Let_def update_xhr_def invoked_def)

lemma onComplete_waits:
  assumes "p_xhr (penvs st ! k) = Some x" and "\<not> (aborted \<or> readyState (xhrs st ! x) = 4)"
  shows "snd (onComplete k aborted st) = st"
  using assms by (auto simp: onComplete_def Let_def)

lemma post_inv_onComplete_other:
  assumes inv: "post_inv k c e st" and jk: "j \<noteq> k"
  shows "post_inv k c e (snd (onComplete j aborted st))"
proof -
  let ?st' = "snd (onComplete j aborted st)"
  from onComplete_fields [of j aborted st] obtain evs where
    f: "ptimers ?st' = ptimers st" "length (penvs ?st') = length (penvs st)"
       "\<forall>i. i \<noteq> j \<longrightarrow> penvs ?st' ! i = penvs st ! i"
       "ptrace ?st' = ptrace st @ evs" "\<forall>i. i \<noteq> j \<longrightarrow> invoked i evs = 0"
    by blast
  from f jk have ek: "penvs ?st' ! k = penvs st ! k"
    and ik: "invoked k (ptrace ?st') = invoked k (ptrace st)"
    by (simp_all add: invoked_append)
  from inv show ?thesis by (auto simp: post_inv_def ek ik f(1,2) split: option.splits)
qed

lemma post_inv_onComplete_self:
  assumes inv: "post_inv k c e st"
  shows "post_inv k c e (snd (onComplete k aborted st))"
proof (cases "p_xhr (penvs st ! k)")
  case None
  then have "snd (onComplete k aborted st) = st" by (simp add: onComplete_idle)
  with inv show ?thesis by simp
next
  case (Some x)
  show ?thesis
  proof (cases "aborted \<or> readyState (xhrs st ! x) = 4")
    case False
    with Some have "snd (onComplete k aborted st) = st" by (rule onComplete_waits)
    with inv show ?thesis by simp
  next
    case True
    from inv Some have pre: "k < length (penvs st)" "p_complete (penvs st ! k) = Some c"
      "p_error (penvs st ! k) = Some e" "invoked k (ptrace st) = 0"
      by (simp_all add: post_inv_def)
    from onComplete_self [OF pre(1) Some pre(2,3) True] pre(1,4)
      onComplete_fields [of k aborted st]
    show ?thesis by (simp add: post_inv_def)
  qed
qed

lemma post_inv_onComplete: "post_inv k c e st \<Longrightarrow> post_inv k c e (snd (onComplete j aborted st))"
  using post_inv_onComplete_other post_inv_onComplete_self by (cases "j = k") auto

lemma post_inv_timer_gone:
  assumes inv: "post_inv k c e st"
  shows "post_inv k c e
           (snd (onComplete k True (st\<lparr>ptimers := filter (\<lambda>(j, d). j \<noteq> k) (ptimers st)\<rparr>)))"
proof (cases "p_xhr (penvs st ! k)")
  case None
  let ?st = "st\<lparr>ptimers := filter (\<lambda>(j, d). j \<noteq> k) (ptimers st)\<rparr>"
  from None have "snd (onComplete k True ?st) = ?st" by (simp add: onComplete_idle)
  with inv None show ?thesis by (simp add: post_inv_def)
next
  case (Some x)
  let ?st = "st\<lparr>ptimers := filter (\<lambda>(j, d). j \<noteq> k) (ptimers st)\<rparr>"
  from inv Some have pre: "k < length (penvs ?st)" "p_xhr (penvs ?st ! k) = Some x"
    "p_complete (penvs ?st ! k) = Some c" "p_error (penvs ?st ! k) = Some e"
    "invoked k (ptrace ?st) = 0"
    by (simp_all add: post_inv_def)
  from onComplete_self [OF pre(1,2,3,4), of True] pre(1,5) onComplete_fields [of k True ?st]
  show ?thesis by (simp add: post_inv_def)
qed

lemma post_inv_update_xhr: "post_inv k c e (update_xhr x f st) = post_inv k c e st"
  by (auto simp: post_inv_def update_xhr_def split: option.splits)

lemma post_inv_post:
  assumes inv: "post_inv k c e st"
  shows "post_inv k c e (snd (post url params t c' e' v st))"
proof -
  obtain tm cc ee where a: "post_args t c' e' = (tm, cc, ee)" by (cases "post_args t c' e'")
  let ?x = "length (xhrs st)"
  obtain r st7 where ps: "post_send url params ?x v st = (r, st7)"
    by (cases "post_send url params ?x v st")
  from post_send_fields [of url params ?x v st] ps
  have f: "penvs st7 = penvs st" "ptrace st7 = ptrace st" "ptimers st7 = ptimers st" by simp_all
  from inv f have inv7: "post_inv k c e st7" by (auto simp: post_inv_def split: option.splits)
  show ?thesis
  proof (cases r)
    case (Some err)
    with ps a inv7 show ?thesis by (simp add: post_def Let_def)
  next
    case None
    let ?env = "\<lparr>p_xhr = Some ?x, p_complete = cc, p_error = ee,
                 p_xhrIdx = (case requestsIE st of None \<Rightarrow> None | Some l \<Rightarrow> Some (length l + 1))\<rparr>"
    let ?st8 = "st7\<lparr>penvs := penvs st7 @ [?env]\<rparr>"
    from inv7 have inv8: "post_inv k c e ?st8"
      by (auto simp: post_inv_def nth_append split: option.splits)
    from inv7 have kk: "k \<noteq> length (penvs st7)" by (simp add: post_inv_def)
    have "post_inv k c e (snd (onComplete (length (penvs st7)) False ?st8))"
      using inv8 by (rule post_inv_onComplete)
    moreover have "post_inv k c e
       ((update_xhr ?x (\<lambda>r. r\<lparr>onreadystatechange := OnComplete (length (penvs st7))\<rparr>) ?st8)
          \<lparr>ptimers := ptimers ?st8 @ [(length (penvs st7), tm)]\<rparr>)"
      using inv8 by (auto simp: post_inv_def update_xhr_def split: option.splits)
    ultimately show ?thesis using None ps a by (simp add: post_def Let_def)
  qed
qed

lemma post_inv_pstep: "post_inv k c e st \<Longrightarrow> post_inv k c e (pstep i st)"
proof (cases i)
  case (CallPost url params t c' e' v)
  assume "post_inv k c e st"
  then show ?thesis by (simp add: CallPost post_inv_post)
next
  case (ReadyStateChange x v)
  assume inv: "post_inv k c e st"
  then have "post_inv k c e (update_xhr x (set_view v) st)" by (simp add: post_inv_update_xhr)
  with inv post_inv_onComplete show ?thesis
    by (simp add: ReadyStateChange Let_def split: handler.splits)
next
  case (PostTimerFires j)
  assume inv: "post_inv k c e st"
  show ?thesis
  proof (cases "j = k")
    case True
    with inv post_inv_timer_gone [OF inv] show ?thesis by (simp add: PostTimerFires)
  next
    case False
    with inv have "post_inv k c e (st\<lparr>ptimers := filter (\<lambda>(i, d). i \<noteq> j) (ptimers st)\<rparr>)"
      by (force simp: post_inv_def split: option.splits)
    from post_inv_onComplete_other [OF this False] inv show ?thesis
      by (simp add: PostTimerFires)
  qed
qed

lemma post_inv_prun: "post_inv k c e st \<Longrightarrow> post_inv k c e (prun ins st)"
  unfolding prun_def by (induction ins arbitrary: st) (simp_all add: post_inv_pstep)

lemma ppage_ok_onComplete:
  assumes "ppage_ok st" shows "ppage_ok (snd (onComplete j aborted st))"
proof (cases "j < length (penvs st)")
  case False
  with assms show ?thesis by (simp add: onComplete_idle)
next
  case True
  from onComplete_fields [of j aborted st] obtain evs where
    f: "length (penvs (snd (onComplete j aborted st))) = length (penvs st)"
       "ptrace (snd (onComplete j aborted st)) = ptrace st @ evs"
       "\<forall>i. i \<noteq> j \<longrightarrow> invoked i evs = 0"
    by blast
  with assms True show ?thesis by (auto simp: ppage_ok_def invoked_append)
qed

lemma post_result:
  obtains (threw) err st' where "post url params t c e v st = (Some err, st')"
      "post_send url params (length (xhrs st)) v st = (Some err, st')"
    | (sync) st7 env where "post_send url params (length (xhrs st)) v st = (None, st7)"
      "p_xhr env = Some (length (xhrs st))" "p_complete env = fst (snd (post_args t c e))"
      "p_error env = snd (snd (post_args t c e))"
      "readyState (xhrs st7 ! length (xhrs st)) = 4"
      "post url params t c e v st
         = onComplete (length (penvs st7)) False (st7\<lparr>penvs := penvs st7 @ [env]\<rparr>)"
    | (async) st7 st9 env where "post_send url params (length (xhrs st)) v st = (None, st7)"
      "p_xhr env = Some (length (xhrs st))" "p_complete env = fst (snd (post_args t c e))"
      "p_error env = snd (snd (post_args t c e))"
      "post url params t c e v st = (None, st9)"
      "penvs st9 = penvs st7 @ [env]" "ptrace st9 = ptrace st7"
      "ptimers st9 = ptimers st7 @ [(length (penvs st7), fst (post_args t c e))]"
      "xhrSupport st9 = xhrSupport st7" "map sent (xhrs st9) = map sent (xhrs st7)"
proof -
  obtain tm cc ee where a: "post_args t c e = (tm, cc, ee)" by (cases "post_args t c e")
  obtain r st7 where ps: "post_send url params (length (xhrs st)) v st = (r, st7)"
    by (cases "post_send url params (length (xhrs st)) v st")
  let ?env = "\<lparr>p_xhr = Some (length (xhrs st)), p_complete = cc, p_error = ee,
               p_xhrIdx = (case requestsIE st of None \<Rightarrow> None | Some l \<Rightarrow> Some (length l + 1))\<rparr>"
  show thesis
  proof (cases r)
    case (Some err)
    with ps a have "post url params t c e v st = (Some err, st7)" by (simp add: post_def Let_def)
    with Some ps threw show ?thesis by simp
  next
    case None
    show ?thesis
    proof (cases "readyState (xhrs st7 ! length (xhrs st)) = 4")
      case True
      with None ps a have "post url params t c e v st
          = onComplete (length (penvs st7)) False (st7\<lparr>penvs := penvs st7 @ [?env]\<rparr>)"
        by (simp add: post_def Let_def)
      with sync [of st7 ?env] None ps a True show ?thesis by simp
    next
      case False
      let ?st9 = "(update_xhr (length (xhrs st))
                     (\<lambda>r. r\<lparr>onreadystatechange := OnComplete (length (penvs st7))\<rparr>)
                     (st7\<lparr>penvs := penvs st7 @ [?env]\<rparr>))
                    \<lparr>ptimers := ptimers st7 @ [(length (penvs st7), tm)]\<rparr>"
      from False None ps a have "post url params t c e v st = (None, ?st9)"
        by (simp add: post_def Let_def)
      with async [of st7 ?env ?st9] None ps a show ?thesis
        by (simp add: update_xhr_def map_update map_update_same)
    qed
  qed
qed

lemma ppage_ok_post:
  assumes ok: "ppage_ok st" shows "ppage_ok (snd (post url params t c e v st))"
proof (cases rule: post_result [of url params t c e v st])
  case (threw err st')
  from post_send_fields [of url params "length (xhrs st)" v st] threw ok
  show ?thesis by (simp add: ppage_ok_def)
next
  case (sync st7 env)
  from post_send_fields [of url params "length (xhrs st)" v st] sync ok
  have "ppage_ok (st7\<lparr>penvs := penvs st7 @ [env]\<rparr>)" by (simp add: ppage_ok_def)
  from ppage_ok_onComplete [OF this] sync show ?thesis by simp
next
  case (async st7 st9 env)
  from post_send_fields [of url params "length (xhrs st)" v st] async ok
  show ?thesis by (simp add: ppage_ok_def)
qed

lemma ppage_ok_pstep: "ppage_ok st \<Longrightarrow> ppage_ok (pstep i st)"
proof (cases i)
  case (CallPost url params t c e v)
  assume "ppage_ok st" then show ?thesis by (simp add: CallPost ppage_ok_post)
next
  case (ReadyStateChange x v)
  assume ok: "ppage_ok st"
  then have "ppage_ok (update_xhr x (set_view v) st)" by (simp add: ppage_ok_def update_xhr_def)
  with ok ppage_ok_onComplete show ?thesis
    by (simp add: ReadyStateChange Let_def split: handler.splits)
next
  case (PostTimerFires j)
  assume ok: "ppage_ok st"
  then have "ppage_ok (st\<lparr>ptimers := filter (\<lambda>(i, d). i \<noteq> j) (ptimers st)\<rparr>)"
    by (simp add: ppage_ok_def)
  with ok ppage_ok_onComplete show ?thesis by (simp add: PostTimerFires)
qed

lemma ppage_ok_prun: "ppage_ok st \<Longrightarrow> ppage_ok (prun ins st)"
  unfolding prun_def by (induction ins arbitrary: st) (simp_all add: ppage_ok_pstep)

lemma ppage_ok_pinit: "ppage_ok (pinit support activeX token)"
  by (simp add: ppage_ok_def pinit_def invoked_Nil)

lemma xhrSupport_post: "xhrSupport (snd (post url params t c e v st)) = xhrSupport st"
proof (cases rule: post_result [of url params t c e v st])
  case (threw err st')
  with post_send_fields [of url params "length (xhrs st)" v st] show ?thesis by simp
next
  case (sync st7 env)
  with post_send_fields [of url params "length (xhrs st)" v st]
    onComplete_fields [of "length (penvs st7)" False "st7\<lparr>penvs := penvs st7 @ [env]\<rparr>"]
  show ?thesis by simp
next
  case (async st7 st9 env)
  with post_send_fields [of url params "length (xhrs st)" v st] show ?thesis by simp
qed

lemma xhrSupport_pstep: "xhrSupport (pstep i st) = xhrSupport st"
proof (cases i)
  case (CallPost url params t c e v)
  then show ?thesis by (simp add: xhrSupport_post)
next
  case (ReadyStateChange x v)
  have "xhrSupport (update_xhr x (set_view v) st) = xhrSupport st" by (simp add: update_xhr_def)
  with onComplete_fields show ?thesis
    by (simp add: ReadyStateChange Let_def split: handler.splits)
next
  case (PostTimerFires j)
  with onComplete_fields [of j True "st\<lparr>ptimers := filter (\<lambda>(i, d). i \<noteq> j) (ptimers st)\<rparr>"]
  show ?thesis by simp
qed

lemma xhrSupport_prun: "xhrSupport (prun ins st) = xhrSupport st"
  unfolding prun_def by (induction ins arbitrary: st) (simp_all add: xhrSupport_pstep)

lemma post_send_object:
  "xhrSupport st \<Longrightarrow> fst (post_send url (PObject obj) x v st) = None"
  by (simp add: post_send_def Let_def)

lemma post_inv_start:
  assumes ok: "ppage_ok st" and sup: "xhrSupport st"
    and a: "post_args t0 c0 e0 = (tm, Some c, Some e)"
  shows "post_inv (length (penvs st)) c e (snd (post url (PObject obj) t0 c0 e0 v st))"
proof (cases rule: post_result [of url "PObject obj" t0 c0 e0 v st])
  case (threw err st')
  with post_send_object [OF sup, of url obj "length (xhrs st)" v] show ?thesis by simp
next
  case (sync st7 env)
  let ?k = "length (penvs st7)"
  let ?st8 = "st7\<lparr>penvs := penvs st7 @ [env]\<rparr>"
  from post_send_fields [of url "PObject obj" "length (xhrs st)" v st] sync
  have f: "penvs st7 = penvs st" "ptrace st7 = ptrace st" by simp_all
  have pre: "?k < length (penvs ?st8)" "p_xhr (penvs ?st8 ! ?k) = Some (length (xhrs st))"
    "p_complete (penvs ?st8 ! ?k) = Some c" "p_error (penvs ?st8 ! ?k) = Some e"
    "False \<or> readyState (xhrs ?st8 ! length (xhrs st)) = 4"
    using sync a by simp_all
  from ok f have z: "invoked ?k (ptrace ?st8) = 0" by (simp add: ppage_ok_def)
  from onComplete_self [OF pre] onComplete_fields [of ?k False ?st8] z sync f
  show ?thesis by (simp add: post_inv_def)
next
  case (async st7 st9 env)
  from post_send_fields [of url "PObject obj" "length (xhrs st)" v st] async
  have f: "penvs st7 = penvs st" "ptrace st7 = ptrace st" by simp_all
  from ok f have "invoked (length (penvs st)) (ptrace st7) = 0" by (simp add: ppage_ok_def)
  with async a f show ?thesis by (simp add: post_inv_def)
qed

lemma post_exactly_once:
  assumes "post_args t0 c0 e0 = (tm, Some c, Some e)"
  shows "let st0 = prun pre (pinit True activeX token);
             k = length (penvs st0);
             st = prun ins (snd (post url (PObject obj) t0 c0 e0 v st0))
         in invoked k (ptrace st) \<le> 1
            \<and> (k \<notin> fst ` set (ptimers st) \<longrightarrow> invoked k (ptrace st) = 1)"
proof -
  let ?st0 = "prun pre (pinit True activeX token)"
  have ok: "ppage_ok ?st0" by (simp add: ppage_ok_prun ppage_ok_pinit)
  have sup: "xhrSupport ?st0" by (simp add: xhrSupport_prun pinit_def)
  from post_inv_prun [OF post_inv_start [OF ok sup assms]]
  have "post_inv (length (penvs ?st0)) c e (prun ins (snd (post url (PObject obj) t0 c0 e0 v ?st0)))" .
  then show ?thesis by (auto simp: post_inv_def Let_def split: option.splits)
qed

lemma onComplete_sent:
  "map sent (xhrs (snd (onComplete j aborted st))) = map sent (xhrs st)"
  by (simp add: onComplete_def Let_def update_xhr_def map_update map_update_same
        split: option.splits)

lemma post_send_sent:
  "xhrSupport st \<Longrightarrow>
   map sent (xhrs (snd (post_send url (PObject obj) (length (xhrs st)) v st)))
     = map sent (xhrs st) @ [Some (urlSerialize obj)]"
  by (simp add: post_send_def Let_def setRequestHeader_def update_xhr_def set_view_def
        new_xhr_def map_update)

lemma post_sent:
  assumes sup: "xhrSupport st"
  shows "map sent (xhrs (snd (post url (PObject obj) t c e v st)))
     = map sent (xhrs st) @ [Some (urlSerialize obj)]"
proof (cases rule: post_result [of url "PObject obj" t c e v st])
  case (threw err st')
  with post_send_object [OF sup, of url obj "length (xhrs st)" v] show ?thesis by simp
next
  case (sync st7 env)
  from post_send_sent [OF sup, of url obj v] sync
  have "map sent (xhrs (st7\<lparr>penvs := penvs st7 @ [env]\<rparr>))
      = map sent (xhrs st) @ [Some (urlSerialize obj)]" by simp
  with onComplete_sent [of "length (penvs st7)" False "st7\<lparr>penvs := penvs st7 @ [env]\<rparr>"] sync
  show ?thesis by simp
next
  case (async st7 st9 env)
  with post_send_sent [OF sup, of url obj v] show ?thesis by simp
qed

section \<open>Timeouts\<close>

lemma rpc_timers:
  "timers (rpc url data t c e st) =
     (case fst (rpc_args t c e) of TNumber n \<Rightarrow> timers st @ [(length (envs st), n)] | _ \<Rightarrow> timers st)"
  by (simp add: rpc_def Let_def split: prod.splits)

lemma post_send_readyState:
  "xhrSupport st \<Longrightarrow>
   readyState (xhrs (snd (post_send url (PObject obj) (length (xhrs st)) v st)) ! length (xhrs st))
     = readyState v"
  by (simp add: post_send_def Let_def setRequestHeader_def update_xhr_def set_view_def new_xhr_def)

lemma post_timers:
  assumes sup: "xhrSupport st" and rs: "readyState v \<noteq> 4"
  shows "ptimers (snd (post url (PObject obj) t c e v st))
     = ptimers st @ [(length (penvs st), fst (post_args t c e))]"
proof (cases rule: post_result [of url "PObject obj" t c e v st])
  case (threw err st')
  with post_send_object [OF sup, of url obj "length (xhrs st)" v] show ?thesis by simp
next
  case (sync st7 env)
  with post_send_readyState [OF sup, of url obj v] rs show ?thesis by simp
next
  case (async st7 st9 env)
  with post_send_fields [of url "PObject obj" "length (xhrs st)" v st] show ?thesis by simp
qed

lemma unresolved_mstep:
  assumes k: "k < length (envs st)" and s: "script (envs st ! k) = Some k"
    and z: "invoked k (trace st) = 0" and nt: "k \<notin> fst ` set (timers st)"
    and ns: "\<forall>n args. i \<noteq> ScriptCalls n args"
  shows "k < length (envs (mstep i st)) \<and> script (envs (mstep i st) ! k) = Some k
     \<and> invoked k (trace (mstep i st)) = 0 \<and> k \<notin> fst ` set (timers (mstep i st))"
proof (cases i)
  case (CallRpc url data t c e)
  with assms show ?thesis
    by (auto simp: rpc_def Let_def nth_append split: prod.splits timeout_arg.splits)
next
  case (CallCreate cls id0 data url lnks)
  from create_fields [of cls id0 data url lnks st] obtain evs where
    f: "envs (create cls id0 data url lnks st) = envs st"
       "timers (create cls id0 data url lnks st) = timers st"
       "trace (create cls id0 data url lnks st) = trace st @ evs"
       "\<forall>ev\<in>set evs. user_event ev"
    by blast
  with assms CallCreate invoked_user [OF f(4), of k] show ?thesis by (simp add: invoked_append)
next
  case (CallWidgetRpc w m data c e)
  with assms show ?thesis
    by (auto simp: Widget_rpc_def rpc_def Let_def nth_append split: prod.splits timeout_arg.splits)
next
  case (ScriptCalls n args)
  with ns show ?thesis by simp
next
  case (TimerFires j)
  show ?thesis
  proof (cases "j \<in> fst ` set (timers st)")
    case False
    with assms TimerFires show ?thesis by simp
  next
    case True
    with nt have jk: "j \<noteq> k" by auto
    let ?st = "st\<lparr>timers := filter (\<lambda>(i, d). i \<noteq> j) (timers st)\<rparr>"
    from resolve_fields [of j Failure "[Num (- 1), Str []]" ?st] obtain evs where
      f: "timers (snd (resolve j Failure [Num (- 1), Str []] ?st)) = timers ?st"
         "length (envs (snd (resolve j Failure [Num (- 1), Str []] ?st))) = length (envs ?st)"
         "\<forall>i. i \<noteq> j \<longrightarrow> envs (snd (resolve j Failure [Num (- 1), Str []] ?st)) ! i = envs ?st ! i"
         "trace (snd (resolve j Failure [Num (- 1), Str []] ?st)) = trace ?st @ evs"
         "\<forall>i. i \<noteq> j \<longrightarrow> invoked i evs = 0"
      by blast
    from f(3,5) jk have e: "envs (snd (resolve j Failure [Num (- 1), Str []] ?st)) ! k = envs st ! k"
      and i: "invoked k evs = 0" by simp_all
    from nt have "k \<notin> fst ` set (filter (\<lambda>(i, d). i \<noteq> j) (timers st))" by auto
    with assms True TimerFires f(1,2,4) e i show ?thesis
      by (simp add: on_timeout_def invoked_append)
  qed
qed

lemma unresolved_mrun:
  "k < length (envs st) \<Longrightarrow> script (envs st ! k) = Some k \<Longrightarrow> invoked k (trace st) = 0 \<Longrightarrow>
   k \<notin> fst ` set (timers st) \<Longrightarrow> \<forall>i\<in>set ins. \<forall>n args. i \<noteq> ScriptCalls n args \<Longrightarrow>
   script (envs (mrun ins st) ! k) = Some k \<and> invoked k (trace (mrun ins st)) = 0"
  unfolding mrun_def
proof (induction ins arbitrary: st)
  case Nil
  then show ?case by simp
next
  case (Cons i ins)
  from Cons.prems have "\<forall>n args. i \<noteq> ScriptCalls n args" by simp
  from unresolved_mstep [OF Cons.prems(1,2,3,4) this] Cons.prems(5)
  have "script (envs (fold mstep ins (mstep i st)) ! k) = Some k
      \<and> invoked k (trace (fold mstep ins (mstep i st))) = 0"
    by (intro Cons.IH) simp_all
  then show ?case by simp
qed

lemma rpc_null_unresolved:
  assumes "\<forall>i\<in>set ins. \<forall>n args. i \<noteq> ScriptCalls n args"
  shows "script (envs (mrun ins (rpc url data TNull c e (mrun pre (minit doc nodes token))))
                  ! length (envs (mrun pre (minit doc nodes token)))) 
           = Some (length (envs (mrun pre (minit doc nodes token))))
       \<and> invoked (length (envs (mrun pre (minit doc nodes token))))
           (trace (mrun ins (rpc url data TNull c e (mrun pre (minit doc nodes token))))) = 0"
proof -
  let ?st0 = "mrun pre (minit doc nodes token)"
  have ok: "page_ok ?st0" by (simp add: page_ok_mrun page_ok_minit)
  let ?st1 = "rpc url data TNull c e ?st0"
  let ?k = "length (envs ?st0)"
  from ok have "?k \<notin> fst ` set (timers ?st0)" "invoked ?k (trace ?st0) = 0"
    by (auto simp: page_ok_def)
  then have pre: "?k < length (envs ?st1)" "script (envs ?st1 ! ?k) = Some ?k"
    "invoked ?k (trace ?st1) = 0" "?k \<notin> fst ` set (timers ?st1)"
    by (simp_all add: rpc_def rpc_args_def Let_def)
  from unresolved_mrun [OF pre assms] show ?thesis .
qed

section \<open>Widgets and their calls\<close>

lemma create_strips_slash:
  "hostURL (heap (create cls id0 data (h @ ''/'') lnks st) ! length (heap st)) = h
   \<and> length (heap (create cls id0 data (h @ ''/'') lnks st)) = Suc (length (heap st))"
  by (simp add: create_def substring_def Let_def Widget_constructor_def Widget_destroy_def
        emit_def nth_append split: option.splits)

lemma destroy_nth:
  "w < length xs \<Longrightarrow>
   hostURL (xs[x := (xs ! x)\<lparr>container := None\<rparr>] ! w) = hostURL (xs ! w)
   \<and> (container (xs ! w) = None \<longrightarrow> container (xs[x := (xs ! x)\<lparr>container := None\<rparr>] ! w) = None)"
  by (cases "x = w") simp_all

lemma heap_mstep:
  assumes w: "w < length (heap st)"
  shows "w < length (heap (mstep i st)) \<and> hostURL (heap (mstep i st) ! w) = hostURL (heap st ! w)
   \<and> (\<not> live st w \<longrightarrow> \<not> live (mstep i st) w)"
proof (cases i)
  case (CallRpc url data t c e)
  with w show ?thesis by (simp add: rpc_def Let_def live_def split: prod.splits)
next
  case (CallCreate cls id0 data url lnks)
  with w destroy_nth [OF w] show ?thesis
    by (auto simp: create_def Let_def Widget_constructor_def Widget_destroy_def
          emit_def live_def nth_append split: option.splits)
next
  case (CallWidgetRpc w' m data c e)
  with w show ?thesis by (simp add: Widget_rpc_def rpc_def Let_def live_def split: prod.splits)
next
  case (ScriptCalls n args)
  with w resolve_fields show ?thesis
    by (simp add: slot_complete_def slot_error_def live_def split: slot.splits)
next
  case (TimerFires j)
  from resolve_fields [of j Failure "[Num (- 1), Str []]"
      "st\<lparr>timers := filter (\<lambda>(i, d). i \<noteq> j) (timers st)\<rparr>"] w
  show ?thesis by (simp add: TimerFires on_timeout_def live_def)
qed

lemma heap_mrun:
  "w < length (heap st) \<Longrightarrow>
   w < length (heap (mrun ins st)) \<and> hostURL (heap (mrun ins st) ! w) = hostURL (heap st ! w)
   \<and> (\<not> live st w \<longrightarrow> \<not> live (mrun ins st) w)"
  unfolding mrun_def
proof (induction ins arbitrary: st)
  case Nil
  then show ?case by simp
next
  case (Cons i ins)
  from heap_mstep [OF Cons.prems, of i] Cons.IH [of "mstep i st"] show ?case by auto
qed

lemma Widget_rpc_scripts:
  "scripts (Widget_rpc w m data c e st)
     = scripts st @ [script_src (hostURL (heap st ! w) @ ''/'' @ m) data (length (callbacks st))
                       (length (callbacks st) + 1) (rpcToken st)]"
  by (simp add: Widget_rpc_def rpc_def Let_def split: prod.splits)

lemma call_fn_dead:
  "\<not> live st w \<Longrightarrow> call_fn (Oncomplete w c) this args st = (None, st)"
  "\<not> live st w \<Longrightarrow> call_fn (Onerror w e m d) this args st = (None, st)"
  by simp_all

lemma live_emit: "live (emit ev st) w = live st w"
  by (simp add: live_def emit_def)

lemma closures_mstep:
  assumes k: "k < length (envs st)"
    and c: "complete (envs st ! k) = None \<or> complete (envs st ! k) = Some cc"
    and e: "error (envs st ! k) = None \<or> error (envs st ! k) = Some ee"
  shows "k < length (envs (mstep i st))
     \<and> (complete (envs (mstep i st) ! k) = None \<or> complete (envs (mstep i st) ! k) = Some cc)
     \<and> (error (envs (mstep i st) ! k) = None \<or> error (envs (mstep i st) ! k) = Some ee)"
proof -
  have res: "k < length (envs (snd (resolve j kind args st')))
     \<and> (complete (envs (snd (resolve j kind args st')) ! k) = None
        \<or> complete (envs (snd (resolve j kind args st')) ! k) = Some cc)
     \<and> (error (envs (snd (resolve j kind args st')) ! k) = None
        \<or> error (envs (snd (resolve j kind args st')) ! k) = Some ee)"
    if "envs st' = envs st" for j kind args st'
    using resolve_fields [of j kind args st'] that k c e by (cases "j = k") auto
  show ?thesis
  proof (cases i)
    case (CallRpc url data t c' e')
    with k c e show ?thesis by (simp add: rpc_def Let_def nth_append split: prod.splits)
  next
    case (CallCreate cls id0 data url lnks)
    with k c e create_fields [of cls id0 data url lnks st] show ?thesis by simp
  next
    case (CallWidgetRpc w' m data c' e')
    with k c e show ?thesis
      by (simp add: Widget_rpc_def rpc_def Let_def nth_append split: prod.splits)
  next
    case (ScriptCalls n args)
    with k c e res [of st] show ?thesis
      by (simp add: slot_complete_def slot_error_def split: slot.splits)
  next
    case (TimerFires j)
    with k c e res [of "st\<lparr>timers := filter (\<lambda>(i, d). i \<noteq> j) (timers st)\<rparr>" j Failure
        "[Num (- 1), Str []]"]
    show ?thesis by (simp add: on_timeout_def)
  qed
qed

lemma closures_mrun:
  "k < length (envs st) \<Longrightarrow>
   complete (envs st ! k) = None \<or> complete (envs st ! k) = Some cc \<Longrightarrow>
   error (envs st ! k) = None \<or> error (envs st ! k) = Some ee \<Longrightarrow>
   k < length (envs (mrun ins st))
     \<and> (complete (envs (mrun ins st) ! k) = None \<or> complete (envs (mrun ins st) ! k) = Some cc)
     \<and> (error (envs (mrun ins st) ! k) = None \<or> error (envs (mrun ins st) ! k) = Some ee)"
  unfolding mrun_def
proof (induction ins arbitrary: st)
  case Nil
  then show ?case by simp
next
  case (Cons i ins)
  from closures_mstep [OF Cons.prems, of i] Cons.IH [of "mstep i st"] show ?case by simp
qed

lemma resolve_dead:
  assumes d: "\<not> live st w"
    and c: "complete (envs st ! k) = None \<or> complete (envs st ! k) = Some (Oncomplete w c0)"
    and e: "error (envs st ! k) = None \<or> error (envs st ! k) = Some (Onerror w e0 m d0)"
  shows "filter user_event (trace (snd (resolve k kind args st))) = filter user_event (trace st)"
proof (cases "k < length (envs st) \<and> script (envs st ! k) \<noteq> None")
  case False
  then have "resolve k kind args st = (None, st)" by (auto simp: resolve_def)
  then show ?thesis by simp
next
  case True
  let ?cb = "case kind of Completion \<Rightarrow> complete (envs st ! k) | Failure \<Rightarrow> error (envs st ! k)"
  show ?thesis
  proof (cases ?cb)
    case None
    with True have "resolve k kind args st = cleanup k st" by (auto simp: resolve_def)
    with cleanup_fields [of k st] show ?thesis by simp
  next
    case (Some f)
    let ?st1 = "emit (Invoked k kind args) st"
    from Some c e have "f = Oncomplete w c0 \<or> f = Onerror w e0 m d0"
      by (cases kind) auto
    with d have "call_fn f None args ?st1 = (None, ?st1)"
      by (auto simp: live_emit)
    with True Some have "resolve k kind args st = cleanup k ?st1" by (auto simp: resolve_def)
    with cleanup_fields [of k ?st1] show ?thesis by (simp add: emit_def user_event_def)
  qed
qed

section \<open>The registry\<close>


















section \<open>Properties\<close>

text \<open>
  C1, as the code has it.  Take a call of \<open>rpc\<close> that is given both callbacks, or a call of
  \<open>post\<close> with an object for \<open>params\<close> that is given both callbacks, on a page that can make
  request objects; the callbacks return normally.  Whatever happens on the page afterwards,
  the transport calls the callbacks of this invocation at most once in all.  For \<open>rpc\<close>
  with a timeout that is not \<open>null\<close>, and for \<open>post\<close>, exactly one call has been made as
  soon as the timeout of the invocation is no longer pending (for \<open>post\<close> this includes a
  request that was complete when \<open>send\<close> returned, for which no timeout is set).
\<close>

theorem callbacks_exactly_once:
  assumes "nothrow c" and "nothrow e"
    and "rpc_args t0 c0 e0 = (t, Some c, Some e)"
    and "post_args pt0 pc0 pe0 = (tm, Some pc, Some pe)"
  shows "(let st0 = mrun pre (minit doc nodes token);
              k = length (envs st0);
              st = mrun ins (rpc url data t0 c0 e0 st0)
          in invoked k (trace st) \<le> 1
             \<and> (t \<noteq> TNull \<and> k \<notin> fst ` set (timers st) \<longrightarrow> invoked k (trace st) = 1))
       \<and> (let st0 = prun ppre (pinit True activeX ptoken);
              k = length (penvs st0);
              st = prun pins (snd (post purl (PObject obj) pt0 pc0 pe0 v st0))
          in invoked k (ptrace st) \<le> 1
             \<and> (k \<notin> fst ` set (ptimers st) \<longrightarrow> invoked k (ptrace st) = 1))"
  using rpc_exactly_once [OF assms(1,2,3)] post_exactly_once [OF assms(4)] by blast

theorem callbacks_exactly_once_witness:
  "nothrow (User 1) \<and> nothrow (User 2)
   \<and> rpc_args (TFunction (User 1)) (Some (User 2)) None = (TNumber 10000, Some (User 1), Some (User 2))
   \<and> post_args (TFunction (7::nat)) (Some 8) None = (10000, Some 7, Some 8)
   \<and> 0 \<notin> fst ` set (timers (mrun [ScriptCalls 0 [Str ''ok''], TimerFires 0]
            (rpc ''http://h/m'' Null (TFunction (User 1)) (Some (User 2)) None
               (mrun [] (minit Map.empty [] ''tok'')))))
   \<and> invoked 0 (trace (mrun [ScriptCalls 0 [Str ''ok''], TimerFires 0]
            (rpc ''http://h/m'' Null (TFunction (User 1)) (Some (User 2)) None
               (mrun [] (minit Map.empty [] ''tok''))))) = 1
   \<and> 0 \<notin> fst ` set (ptimers (prun [PostTimerFires 0]
            (snd (post ''/m'' (PObject [(''a'', ''1'')]) (TFunction 7) (Some 8) None
               \<lparr>readyState = 1, status = None, statusText = None, responseText = []\<rparr>
               (prun [] (pinit True False ''tok'')))))) 
   \<and> invoked 0 (ptrace (prun [PostTimerFires 0]
            (snd (post ''/m'' (PObject [(''a'', ''1'')]) (TFunction 7) (Some 8) None
               \<lparr>readyState = 1, status = None, statusText = None, responseText = []\<rparr>
               (prun [] (pinit True False ''tok'')))))) = 1"
proof -
  have h: "nothrow (User 1)" "nothrow (User 2)"
    "rpc_args (TFunction (User 1)) (Some (User 2)) None
       = (TNumber 10000, Some (User 1), Some (User 2))"
    "post_args (TFunction (7::nat)) (Some 8) None = (10000, Some 7, Some 8)"
    by (simp_all add: rpc_args_def post_args_def)
  have k: "length (envs (mrun [] (minit Map.empty [] ''tok''))) = 0"
    "length (penvs (prun [] (pinit True False ''tok''))) = 0"
    by (simp_all add: mrun_def minit_def prun_def pinit_def)
  have t: "0 \<notin> fst ` set (timers (mrun [ScriptCalls 0 [Str ''ok''], TimerFires 0]
            (rpc ''http://h/m'' Null (TFunction (User 1)) (Some (User 2)) None
               (mrun [] (minit Map.empty [] ''tok'')))))"
    by code_simp
  have pt: "0 \<notin> fst ` set (ptimers (prun [PostTimerFires 0]
            (snd (post ''/m'' (PObject [(''a'', ''1'')]) (TFunction 7) (Some 8) None
               \<lparr>readyState = 1, status = None, statusText = None, responseText = []\<rparr>
               (prun [] (pinit True False ''tok''))))))"
    by code_simp
  from callbacks_exactly_once [OF h, of "[]" Map.empty "[]" "''tok''"
      "[ScriptCalls 0 [Str ''ok''], TimerFires 0]" "''http://h/m''" Null
      "[]" False "''tok''" "[PostTimerFires 0]" "''/m''" "[(''a'', ''1'')]"
      "\<lparr>readyState = 1, status = None, statusText = None, responseText = []\<rparr>"]
  show ?thesis using h t pt by (simp add: Let_def k)
qed

text \<open>
  C1 as stated fails: a call of \<open>rpc\<close> with \<open>null\<close> for the timeout sets no timer, so with
  a server that never answers neither callback is ever called.
\<close>

theorem rpc_null_timeout_never_resolves:
  "timers (mrun [CallRpc ''http://h/m'' Null TNull (Some (User 1)) (Some (User 2)),
                 TimerFires 0] (minit Map.empty [] ''tok'')) = []
   \<and> invoked 0 (trace (mrun [CallRpc ''http://h/m'' Null TNull (Some (User 1)) (Some (User 2)),
                              TimerFires 0] (minit Map.empty [] ''tok''))) = 0
   \<and> script (envs (mrun [CallRpc ''http://h/m'' Null TNull (Some (User 1)) (Some (User 2)),
                          TimerFires 0] (minit Map.empty [] ''tok'')) ! 0) = Some 0"
  by code_simp



text \<open>
  C3 at two overlapping calls.  The first call resolves and \<open>splice(0, 2)\<close> moves the
  slots of the second call to positions 0 and 1; when the second call times out its
  \<open>cleanup\<close> runs \<open>splice(2, 2)\<close>, which removes nothing: the call is resolved, its
  script element is gone from the head, and its two slots are still in
  \<open>mythril._callbacks\<close>.
\<close>

theorem rpc_cleanup_leaves_slots:
  "script (envs (mrun [CallRpc ''http://h/a'' Null (TFunction (User 1)) (Some (User 2)) None,
                       CallRpc ''http://h/b'' Null (TFunction (User 3)) (Some (User 4)) None,
                       ScriptCalls 0 [Str ''x''], TimerFires 1]
                   (minit Map.empty [] ''tok'')) ! 1) = None
   \<and> head (mrun [CallRpc ''http://h/a'' Null (TFunction (User 1)) (Some (User 2)) None,
                 CallRpc ''http://h/b'' Null (TFunction (User 3)) (Some (User 4)) None,
                 ScriptCalls 0 [Str ''x''], TimerFires 1]
             (minit Map.empty [] ''tok'')) = []
   \<and> callbacks (mrun [CallRpc ''http://h/a'' Null (TFunction (User 1)) (Some (User 2)) None,
                      CallRpc ''http://h/b'' Null (TFunction (User 3)) (Some (User 4)) None,
                      ScriptCalls 0 [Str ''x''], TimerFires 1]
                  (minit Map.empty [] ''tok'')) = [SlotComplete 1, SlotError 1]"
  by code_simp

text \<open>
  C4.  Take a call issued through \<open>_rpc\<close> of a widget, and any later state of the page in
  which the widget has been torn down (its container is cleared).  There the completion
  slot, the error slot and the timeout of that call run no function of a caller and no
  hook: neither \<open>complete\<close>, nor \<open>error\<close>, nor the widget's \<open>onerror\<close>.  And a widget that
  has been torn down stays so.
\<close>

theorem destroyed_widget_rpc_noop:
  assumes "w < length (heap st0)"
  shows "let k = length (envs st0); st2 = mrun ins (Widget_rpc w m d c e st0) in
           \<not> live st2 w \<longrightarrow>
             (\<forall>args. filter user_event (trace (snd (slot_complete k args st2)))
                        = filter user_event (trace st2)
                    \<and> filter user_event (trace (snd (slot_error k args st2)))
                        = filter user_event (trace st2))
             \<and> filter user_event (trace (snd (on_timeout k st2))) = filter user_event (trace st2)
             \<and> (\<forall>ins'. \<not> live (mrun ins' st2) w)"
proof -
  let ?k = "length (envs st0)"
  let ?st1 = "Widget_rpc w m d c e st0"
  let ?st2 = "mrun ins ?st1"
  have e1: "?k < length (envs ?st1)"
    "complete (envs ?st1 ! ?k) = None \<or> complete (envs ?st1 ! ?k) = Some (Oncomplete w c)"
    "error (envs ?st1 ! ?k) = None \<or> error (envs ?st1 ! ?k) = Some (Onerror w e m d)"
    by (simp_all add: Widget_rpc_def rpc_def rpc_args_def Let_def)
  from closures_mrun [OF e1, of ins]
  have e2: "complete (envs ?st2 ! ?k) = None \<or> complete (envs ?st2 ! ?k) = Some (Oncomplete w c)"
    "error (envs ?st2 ! ?k) = None \<or> error (envs ?st2 ! ?k) = Some (Onerror w e m d)"
    by simp_all
  have h1: "w < length (heap ?st1)" using assms by (simp add: Widget_rpc_def rpc_def Let_def split: prod.splits)
  from heap_mrun [OF h1, of ins] have h2: "w < length (heap ?st2)" by simp
  {
    assume dead: "\<not> live ?st2 w"
    have "filter user_event (trace (snd (resolve ?k kind args ?st2))) = filter user_event (trace ?st2)"
      for kind args
      using resolve_dead [OF dead e2] .
    moreover have "\<not> live (mrun ins' ?st2) w" for ins'
      using heap_mrun [OF h2, of ins'] dead by simp
    ultimately have "(\<forall>args. filter user_event (trace (snd (slot_complete ?k args ?st2)))
                        = filter user_event (trace ?st2)
                    \<and> filter user_event (trace (snd (slot_error ?k args ?st2)))
                        = filter user_event (trace ?st2))
             \<and> filter user_event (trace (snd (on_timeout ?k ?st2))) = filter user_event (trace ?st2)
             \<and> (\<forall>ins'. \<not> live (mrun ins' ?st2) w)"
      by (simp add: slot_complete_def slot_error_def on_timeout_def)
  }
  then show ?thesis by (simp add: Let_def)
qed

theorem destroyed_widget_rpc_noop_witness:
  "0 < length (heap (mrun [CallCreate 0 ''w'' Null ''http://h/api/'' []]
                       (minit (Map.empty(''w'' \<mapsto> 5)) [] ''tok'')))
   \<and> \<not> live (mrun [CallCreate 1 ''w'' Null ''http://h/api/'' []]
              (Widget_rpc 0 ''m'' Null (Some (User 1)) None
                 (mrun [CallCreate 0 ''w'' Null ''http://h/api/'' []]
                    (minit (Map.empty(''w'' \<mapsto> 5)) [] ''tok'')))) 0
   \<and> filter user_event (trace (snd (slot_complete 0 [Str ''late'']
         (mrun [CallCreate 1 ''w'' Null ''http://h/api/'' []]
              (Widget_rpc 0 ''m'' Null (Some (User 1)) None
                 (mrun [CallCreate 0 ''w'' Null ''http://h/api/'' []]
                    (minit (Map.empty(''w'' \<mapsto> 5)) [] ''tok'')))))))
       = filter user_event (trace
         (mrun [CallCreate 1 ''w'' Null ''http://h/api/'' []]
              (Widget_rpc 0 ''m'' Null (Some (User 1)) None
                 (mrun [CallCreate 0 ''w'' Null ''http://h/api/'' []]
                    (minit (Map.empty(''w'' \<mapsto> 5)) [] ''tok'')))))
   \<and> filter user_event (trace (snd (on_timeout 0
         (mrun [CallCreate 1 ''w'' Null ''http://h/api/'' []]
              (Widget_rpc 0 ''m'' Null (Some (User 1)) None
                 (mrun [CallCreate 0 ''w'' Null ''http://h/api/'' []]
                    (minit (Map.empty(''w'' \<mapsto> 5)) [] ''tok'')))))))
       = filter user_event (trace
         (mrun [CallCreate 1 ''w'' Null ''http://h/api/'' []]
              (Widget_rpc 0 ''m'' Null (Some (User 1)) None
                 (mrun [CallCreate 0 ''w'' Null ''http://h/api/'' []]
                    (minit (Map.empty(''w'' \<mapsto> 5)) [] ''tok'')))))"
proof -
  let ?st0 = "mrun [CallCreate 0 ''w'' Null ''http://h/api/'' []]
                (minit (Map.empty(''w'' \<mapsto> 5)) [] ''tok'')"
  have a: "0 < length (heap ?st0)" by code_simp
  have k: "length (envs ?st0) = 0" by code_simp
  have dead: "\<not> live (mrun [CallCreate 1 ''w'' Null ''http://h/api/'' []]
              (Widget_rpc 0 ''m'' Null (Some (User 1)) None ?st0)) 0"
    by code_simp
  from destroyed_widget_rpc_noop [OF a, of "[CallCreate 1 ''w'' Null ''http://h/api/'' []]"
      "''m''" Null "Some (User 1)" None]
  show ?thesis using a dead by (simp add: Let_def k)
qed

text \<open>
  C5 on the code.  With a string for \<open>params\<close>, \<open>bodyText\<close> is \<open>undefined\<close> and \<open>post\<close>
  throws a \<open>TypeError\<close> at \<open>bodyText.length\<close>: the request object has been opened but
  nothing is sent, no callback is called and no timeout is set.
\<close>

theorem post_string_params_throws:
  "xhrSupport st \<longrightarrow>
     fst (post url (PString s) t c e v st) = Some TypeError
     \<and> map sent (xhrs (snd (post url (PString s) t c e v st))) = map sent (xhrs st) @ [None]
     \<and> ptrace (snd (post url (PString s) t c e v st)) = ptrace st
     \<and> ptimers (snd (post url (PString s) t c e v st)) = ptimers st"
proof
  assume sup: "xhrSupport st"
  obtain tm cc ee where a: "post_args t c e = (tm, cc, ee)" by (cases "post_args t c e")
  have ps: "fst (post_send url (PString s) (length (xhrs st)) v st) = Some TypeError"
    "map sent (xhrs (snd (post_send url (PString s) (length (xhrs st)) v st)))
       = map sent (xhrs st) @ [None]"
    using sup
    by (simp_all add: post_send_def Let_def setRequestHeader_def update_xhr_def new_xhr_def
          map_update)
  obtain st' where st': "post_send url (PString s) (length (xhrs st)) v st = (Some TypeError, st')"
    using ps(1) by (cases "post_send url (PString s) (length (xhrs st)) v st") simp
  then have p: "post url (PString s) t c e v st = (Some TypeError, st')"
    using a by (simp add: post_def Let_def)
  from post_send_fields [of url "PString s" "length (xhrs st)" v st] ps(2) st'
  show "fst (post url (PString s) t c e v st) = Some TypeError
     \<and> map sent (xhrs (snd (post url (PString s) t c e v st))) = map sent (xhrs st) @ [None]
     \<and> ptrace (snd (post url (PString s) t c e v st)) = ptrace st
     \<and> ptimers (snd (post url (PString s) t c e v st)) = ptimers st"
    unfolding p by simp
qed

theorem post_string_params_throws_witness:
  "xhrSupport (pinit True False ''tok'')
   \<and> fst (post ''/m'' (PString ''a=1'') (TFunction 7) (Some 8) None
            \<lparr>readyState = 1, status = None, statusText = None, responseText = []\<rparr>
            (pinit True False ''tok'')) = Some TypeError
   \<and> map sent (xhrs (snd (post ''/m'' (PString ''a=1'') (TFunction 7) (Some 8) None
            \<lparr>readyState = 1, status = None, statusText = None, responseText = []\<rparr>
            (pinit True False ''tok'')))) = [None]"
  using post_string_params_throws [of "pinit True False ''tok''" "''/m''" "''a=1''" "TFunction 7"
      "Some 8" None "\<lparr>readyState = 1, status = None, statusText = None, responseText = []\<rparr>"]
  by (simp add: pinit_def)

text \<open>
  C6 on the code.  When the timeout of \<open>post\<close> runs, \<open>onComplete\<close> reads \<open>status\<close> and
  \<open>statusText\<close> of the request, which is still under way; \<open>- 1\<close> and the empty string
  survive only where the read throws.  On a host that reports status 0 for a request
  without a response, the error callback is called with 0.
\<close>

theorem post_timeout_reports_request_status:
  "ptrace (prun [CallPost ''/m'' (PObject [(''a'', ''1'')]) (TFunction 7) (Some 8) None
                   \<lparr>readyState = 1, status = Some 0, statusText = Some [], responseText = []\<rparr>,
                 PostTimerFires 0] (pinit True False ''tok''))
     = [Invoked 0 Failure [Num 0, Str []], UserCalled 8 None [Num 0, Str []]]"
  by code_simp

text \<open>
  C7.  For the mapping \<open>{a: "1", b: "two words"}\<close> the serialized body is
  \<open>a=1&b=two%20words\<close>: pairs in iteration order, keys and values percent-encoded; and it
  is the body that \<open>post\<close> hands to \<open>send\<close>.
\<close>

theorem urlSerialize_example:
  "urlSerialize [(''a'', ''1''), (''b'', ''two words'')] = ''a=1&b=two%20words''
   \<and> (xhrSupport st \<longrightarrow>
        map sent (xhrs (snd (post url (PObject [(''a'', ''1''), (''b'', ''two words'')])
                               t c e v st)))
          = map sent (xhrs st) @ [Some ''a=1&b=two%20words''])"
proof -
  have s: "urlSerialize [(''a'', ''1''), (''b'', ''two words'')] = ''a=1&b=two%20words''"
    by (simp add: urlSerialize_def encodeURIComponent_def unreserved_def encode_octet_def
          hexdigit_def)
  with post_sent [of st url "[(''a'', ''1''), (''b'', ''two words'')]" t c e v]
  show ?thesis by simp
qed

theorem urlSerialize_example_witness:
  "xhrSupport (pinit True False ''tok'')
   \<and> map sent (xhrs (snd (post ''/m'' (PObject [(''a'', ''1''), (''b'', ''two words'')])
                             (TFunction 7) (Some 8) None
                             \<lparr>readyState = 1, status = None, statusText = None,
                               responseText = []\<rparr>
                             (pinit True False ''tok''))))
       = [Some ''a=1&b=two%20words'']"
  using urlSerialize_example [of "pinit True False ''tok''" "''/m''" "TFunction 7" "Some 8" None
      "\<lparr>readyState = 1, status = None, statusText = None, responseText = []\<rparr>"]
  by (simp add: pinit_def)

text \<open>
  C8.  \<open>create\<close> with a host URL that ends in a slash builds the widget with that one
  slash stripped; the widget keeps this URL whatever happens afterwards, and a call issued
  through its \<open>_rpc\<close> loads a script from the stripped URL, one slash, and the method
  name, followed by the query string.
\<close>

theorem hostURL_one_slash:
  "hostURL (heap (create cls id0 data (h @ ''/'') lnks st) ! length (heap st)) = h
   \<and> hostURL (heap (mrun ins (create cls id0 data (h @ ''/'') lnks st)) ! length (heap st)) = h
   \<and> scripts (Widget_rpc (length (heap st)) m d c e
                (mrun ins (create cls id0 data (h @ ''/'') lnks st)))
       = scripts (mrun ins (create cls id0 data (h @ ''/'') lnks st))
         @ [script_src (h @ ''/'' @ m) d
              (length (callbacks (mrun ins (create cls id0 data (h @ ''/'') lnks st))))
              (length (callbacks (mrun ins (create cls id0 data (h @ ''/'') lnks st))) + 1)
              (rpcToken (mrun ins (create cls id0 data (h @ ''/'') lnks st)))]
   \<and> (\<exists>q. script_src (h @ ''/'' @ m) d ci ei tok = h @ ''/'' @ m @ ''?'' @ q)"
proof -
  let ?st1 = "create cls id0 data (h @ ''/'') lnks st"
  from create_strips_slash [of cls id0 data h lnks st]
  have a: "hostURL (heap ?st1 ! length (heap st)) = h" and l: "length (heap st) < length (heap ?st1)"
    by simp_all
  from heap_mrun [OF l, of ins] a
  have b: "hostURL (heap (mrun ins ?st1) ! length (heap st)) = h" by simp
  have q: "\<exists>q. script_src (h @ ''/'' @ m) d ci ei tok = h @ ''/'' @ m @ ''?'' @ q"
    by (simp add: script_src_def)
  from a b q show ?thesis by (simp add: Widget_rpc_scripts)
qed

text \<open>
  C9.  With the timeout omitted (a function in third place, or \<open>undefined\<close>) \<open>rpc\<close> sets
  a timeout of 10000 ms; \<open>post\<close> takes 10000 as its timeout and sets it unless the request
  was complete when \<open>send\<close> returned.  With \<open>null\<close> for the timeout \<open>rpc\<close> sets none, and
  as long as no response script calls a slot the call stays unresolved, whatever else
  happens on the page.
\<close>

theorem default_timeout:
  "timers (rpc url data (TFunction f) c e st) = timers st @ [(length (envs st), 10000)]
   \<and> timers (rpc url data TUndefined c e st) = timers st @ [(length (envs st), 10000)]
   \<and> fst (post_args (TFunction pf) pc pe) = 10000
   \<and> fst (post_args TUndefined pc pe) = 10000
   \<and> (xhrSupport pst \<and> readyState v \<noteq> 4 \<longrightarrow>
        ptimers (snd (post purl (PObject obj) (TFunction pf) pc pe v pst))
          = ptimers pst @ [(length (penvs pst), 10000)]
        \<and> ptimers (snd (post purl (PObject obj) TUndefined pc pe v pst))
          = ptimers pst @ [(length (penvs pst), 10000)])
   \<and> timers (rpc url data TNull c e st) = timers st
   \<and> ((\<forall>i\<in>set ins. \<forall>n args. i \<noteq> ScriptCalls n args) \<longrightarrow>
        script (envs (mrun ins (rpc url data TNull c e (mrun pre (minit doc nodes token))))
                  ! length (envs (mrun pre (minit doc nodes token))))
          = Some (length (envs (mrun pre (minit doc nodes token))))
        \<and> invoked (length (envs (mrun pre (minit doc nodes token))))
            (trace (mrun ins (rpc url data TNull c e (mrun pre (minit doc nodes token))))) = 0)"
proof -
  have a: "fst (post_args (TFunction pf) pc pe) = 10000" "fst (post_args TUndefined pc pe) = 10000"
    by (simp_all add: post_args_def)
  have r: "timers (rpc url data (TFunction f) c e st) = timers st @ [(length (envs st), 10000)]"
    "timers (rpc url data TUndefined c e st) = timers st @ [(length (envs st), 10000)]"
    "timers (rpc url data TNull c e st) = timers st"
    by (simp_all add: rpc_timers rpc_args_def)
  have p: "xhrSupport pst \<and> readyState v \<noteq> 4 \<longrightarrow>
        ptimers (snd (post purl (PObject obj) (TFunction pf) pc pe v pst))
          = ptimers pst @ [(length (penvs pst), 10000)]
        \<and> ptimers (snd (post purl (PObject obj) TUndefined pc pe v pst))
          = ptimers pst @ [(length (penvs pst), 10000)]"
    using a by (simp add: post_timers)
  from a r p rpc_null_unresolved [of ins url data c e pre doc nodes token]
  show ?thesis by blast
qed

theorem default_timeout_witness:
  "xhrSupport (pinit True False ''tok'')
   \<and> readyState \<lparr>readyState = 1, status = None, statusText = None, responseText = []\<rparr> \<noteq> 4
   \<and> ptimers (snd (post ''/m'' (PObject [(''a'', ''1'')]) (TFunction 7) (Some 8) None
                     \<lparr>readyState = 1, status = None, statusText = None, responseText = []\<rparr>
                     (pinit True False ''tok''))) = [(0, 10000)]
   \<and> script (envs (mrun [TimerFires 0] (rpc ''http://h/m'' Null TNull (Some (User 1))
                      (Some (User 2)) (mrun [] (minit Map.empty [] ''tok'')))) ! 0) = Some 0
   \<and> invoked 0 (trace (mrun [TimerFires 0] (rpc ''http://h/m'' Null TNull (Some (User 1))
                      (Some (User 2)) (mrun [] (minit Map.empty [] ''tok''))))) = 0"
proof -
  have k: "length (envs (mrun [] (minit Map.empty [] ''tok''))) = 0"
    by (simp add: mrun_def minit_def)
  from default_timeout [of "''http://h/m''" Null "User 1" "Some (User 1)" "Some (User 2)"
      "mrun [] (minit Map.empty [] ''tok'')" 7 "Some 8" None "pinit True False ''tok''"
      "\<lparr>readyState = 1, status = None, statusText = None, responseText = []\<rparr>" "''/m''"
      "[(''a'', ''1'')]" "[TimerFires 0]" "[]" Map.empty "[]" "''tok''"]
  show ?thesis by (simp add: k pinit_def)
qed



end
